theory Spec2Isabelle
  imports Main "HOL-Library.Word"
begin

section \<open>The referral database of \<open>src/refdb.cpp\<close>\<close>

text \<open>
  \<open>ReferralsViewDB\<close> keeps six tables in one key-value engine, told apart by a leading
  tag byte. The engine (\<open>m_db\<close>), the serialisation of keys and values, the floating point
  routines and the header \<open>refdb.h\<close> are not part of the file; the model keeps one typed
  map per tag and takes the rest as parameters.
\<close>

subsection \<open>Data\<close>

type_synonym Address = "160 word"
type_synonym uint256 = "256 word"
type_synonym CAmount = "64 word"

text \<open>The three fields of a referral that the file reads.\<close>

record Referral =
  codeHash :: uint256
  pubKeyId :: Address
  previousReferral :: uint256

text \<open>\<open>using ANVTuple = std::tuple<char, Address, CAmount>\<close>\<close>

type_synonym ANVTuple = "8 word \<times> Address \<times> CAmount"

text \<open>The element of \<open>AddressANVs\<close>, built from the three components of the tuple.\<close>

record AddressANV =
  address_type :: "8 word"
  address :: Address
  anv :: CAmount

text \<open>
  The store. \<open>db_lot_size\<close> and the slot positions are \<open>size_t\<close> values; every position
  the code computes lies below \<open>MAX_RESERVOIR_SIZE\<close>, so they are kept as naturals.
  The table under \<open>DB_REFERRALS_BY_KEY_ID\<close> is never read or written.
  \<open>engine\<close> scripts the engine's answers to the coming writes and erases, in order:
  \<open>False\<close> is a failed operation, and an exhausted script means success.
\<close>

record 'k ReferralsViewDB =
  db_referrals :: "uint256 \<rightharpoonup> Referral"
  db_parent_key :: "Address \<rightharpoonup> Address"
  db_children :: "Address \<rightharpoonup> Address list"
  db_anv :: "Address \<rightharpoonup> ANVTuple"
  db_lot_size :: "nat option"
  db_lot_val :: "nat \<rightharpoonup> 'k \<times> Address"
  engine :: "bool list"

text \<open>The largest \<open>size_t\<close>, taken as 64 bits wide.\<close>

definition MAX_LEVELS :: nat where
  "MAX_LEVELS = 2 ^ 64 - 1"

definition MAX_RESERVOIR_SIZE :: nat where
  "MAX_RESERVOIR_SIZE = 1000"

definition DB_ANV :: char where
  "DB_ANV = CHR ''a''"

text \<open>A default-constructed \<open>Address\<close> is the all-zero blob.\<close>

definition default_Address :: Address where
  "default_Address = 0"

definition default_ANVTuple :: ANVTuple where
  "default_ANVTuple = (0, default_Address, 0)"

text \<open>
  A failed assertion ends the process. The outcome keeps the store as it was persisted
  at that moment.
\<close>

datatype fault = NegativeANV | ReferralCycle | PositiveLogRand

datatype 'k outcome = Fatal fault "'k ReferralsViewDB" | Ret bool "'k ReferralsViewDB"

subsection \<open>The engine: writes and erases that may fail\<close>

definition engine_step :: "'k ReferralsViewDB \<Rightarrow> bool \<times> 'k ReferralsViewDB" where
  "engine_step db =
     (case engine db of
        [] \<Rightarrow> (True, db)
      | ok # rest \<Rightarrow> (ok, db\<lparr>engine := rest\<rparr>))"

definition Write_referral ::
  "uint256 \<Rightarrow> Referral \<Rightarrow> 'k ReferralsViewDB \<Rightarrow> bool \<times> 'k ReferralsViewDB" where
  "Write_referral k v db =
     (case engine_step db of
        (ok, db1) \<Rightarrow> (ok, if ok then db1\<lparr>db_referrals := (db_referrals db1)(k \<mapsto> v)\<rparr> else db1))"

definition Erase_referral :: "uint256 \<Rightarrow> 'k ReferralsViewDB \<Rightarrow> bool \<times> 'k ReferralsViewDB" where
  "Erase_referral k db =
     (case engine_step db of
        (ok, db1) \<Rightarrow> (ok, if ok then db1\<lparr>db_referrals := (db_referrals db1)(k := None)\<rparr> else db1))"

definition Write_parent_key ::
  "Address \<Rightarrow> Address \<Rightarrow> 'k ReferralsViewDB \<Rightarrow> bool \<times> 'k ReferralsViewDB" where
  "Write_parent_key k v db =
     (case engine_step db of
        (ok, db1) \<Rightarrow> (ok, if ok then db1\<lparr>db_parent_key := (db_parent_key db1)(k \<mapsto> v)\<rparr> else db1))"

definition Erase_parent_key :: "Address \<Rightarrow> 'k ReferralsViewDB \<Rightarrow> bool \<times> 'k ReferralsViewDB" where
  "Erase_parent_key k db =
     (case engine_step db of
        (ok, db1) \<Rightarrow> (ok, if ok then db1\<lparr>db_parent_key := (db_parent_key db1)(k := None)\<rparr> else db1))"

definition Write_children ::
  "Address \<Rightarrow> Address list \<Rightarrow> 'k ReferralsViewDB \<Rightarrow> bool \<times> 'k ReferralsViewDB" where
  "Write_children k v db =
     (case engine_step db of
        (ok, db1) \<Rightarrow> (ok, if ok then db1\<lparr>db_children := (db_children db1)(k \<mapsto> v)\<rparr> else db1))"

definition Write_anv ::
  "Address \<Rightarrow> ANVTuple \<Rightarrow> 'k ReferralsViewDB \<Rightarrow> bool \<times> 'k ReferralsViewDB" where
  "Write_anv k v db =
     (case engine_step db of
        (ok, db1) \<Rightarrow> (ok, if ok then db1\<lparr>db_anv := (db_anv db1)(k \<mapsto> v)\<rparr> else db1))"

definition Write_lot_size :: "nat \<Rightarrow> 'k ReferralsViewDB \<Rightarrow> bool \<times> 'k ReferralsViewDB" where
  "Write_lot_size v db =
     (case engine_step db of
        (ok, db1) \<Rightarrow> (ok, if ok then db1\<lparr>db_lot_size := Some v\<rparr> else db1))"

definition Write_lot_val ::
  "nat \<Rightarrow> 'k \<times> Address \<Rightarrow> 'k ReferralsViewDB \<Rightarrow> bool \<times> 'k ReferralsViewDB" where
  "Write_lot_val k v db =
     (case engine_step db of
        (ok, db1) \<Rightarrow> (ok, if ok then db1\<lparr>db_lot_val := (db_lot_val db1)(k \<mapsto> v)\<rparr> else db1))"

subsection \<open>The referral tree\<close>

definition GetReferral :: "'k ReferralsViewDB \<Rightarrow> uint256 \<Rightarrow> Referral option" where
  "GetReferral db code_hash = db_referrals db code_hash"

definition GetReferrer :: "'k ReferralsViewDB \<Rightarrow> Address \<Rightarrow> Address option" where
  "GetReferrer db a = db_parent_key db a"

definition GetChildren :: "'k ReferralsViewDB \<Rightarrow> Address \<Rightarrow> Address list" where
  "GetChildren db a = (case db_children db a of None \<Rightarrow> [] | Some children \<Rightarrow> children)"

definition ReferralCodeExists :: "'k ReferralsViewDB \<Rightarrow> uint256 \<Rightarrow> bool" where
  "ReferralCodeExists db code_hash = (db_referrals db code_hash \<noteq> None)"

definition WalletIdExists :: "'k ReferralsViewDB \<Rightarrow> Address \<Rightarrow> bool" where
  "WalletIdExists db a = (db_parent_key db a \<noteq> None)"

text \<open>
  The inviter's address as both \<open>InsertReferral\<close> and \<open>RemoveReferral\<close> resolve it:
  the default address unless \<open>previousReferral\<close> names a stored referral.
\<close>

definition resolve_parent :: "'k ReferralsViewDB \<Rightarrow> Referral \<Rightarrow> Address" where
  "resolve_parent db referral =
     (case GetReferral db (previousReferral referral) of
        None \<Rightarrow> default_Address
      | Some parent_referral \<Rightarrow> pubKeyId parent_referral)"

definition InsertReferral :: "Referral \<Rightarrow> 'k ReferralsViewDB \<Rightarrow> bool \<times> 'k ReferralsViewDB" where
  "InsertReferral referral db =
     (case Write_referral (codeHash referral) referral db of
        (ok1, db1) \<Rightarrow>
          if \<not> ok1 then (False, db1)
          else
            let parent_address = resolve_parent db1 referral in
            (case Write_parent_key (pubKeyId referral) parent_address db1 of
               (ok2, db2) \<Rightarrow>
                 if \<not> ok2 then (False, db2)
                 else
                   let children = GetChildren db2 parent_address @ [pubKeyId referral] in
                   (case Write_children parent_address children db2 of
                      (ok3, db3) \<Rightarrow> if \<not> ok3 then (False, db3) else (True, db3))))"

definition RemoveReferral :: "Referral \<Rightarrow> 'k ReferralsViewDB \<Rightarrow> bool \<times> 'k ReferralsViewDB" where
  "RemoveReferral referral db =
     (case Erase_referral (codeHash referral) db of
        (ok1, db1) \<Rightarrow>
          if \<not> ok1 then (False, db1)
          else
            let parent_address = resolve_parent db1 referral in
            (case Erase_parent_key (pubKeyId referral) db1 of
               (ok2, db2) \<Rightarrow>
                 if \<not> ok2 then (False, db2)
                 else
                   let children =
                         filter (\<lambda>c. c \<noteq> pubKeyId referral) (GetChildren db2 parent_address) in
                   (case Write_children parent_address children db2 of
                      (ok3, db3) \<Rightarrow> if \<not> ok3 then (False, db3) else (True, db3))))"

subsection \<open>The aggregate value of an address and of its ancestors\<close>

definition GetANV :: "'k ReferralsViewDB \<Rightarrow> Address \<Rightarrow> AddressANV option" where
  "GetANV db a =
     (case db_anv db a of
        None \<Rightarrow> None
      | Some (t, origin, amount) \<Rightarrow> Some \<lparr>address_type = t, address = origin, anv = amount\<rparr>)"

text \<open>
  One round of the loop of \<open>UpdateANV\<close> at the address \<open>a\<close>: either the call ends there
  (\<open>Inl\<close>: the assertion on the amount fails, or the write does), or the loop goes on with
  the referrer of \<open>a\<close>. The amount is a 64-bit signed integer; a sum out of its range
  is taken to wrap around, as the machine's addition does.
\<close>

definition UpdateANV_body ::
  "8 word \<Rightarrow> Address \<Rightarrow> CAmount \<Rightarrow> Address \<Rightarrow> nat \<Rightarrow> 'k ReferralsViewDB
     \<Rightarrow> 'k outcome + Address option \<times> 'k ReferralsViewDB" where
  "UpdateANV_body addressType start_address change a levels db =
     (let anv0 = (case db_anv db a of None \<Rightarrow> default_ANVTuple | Some t \<Rightarrow> t);
          anv1 = (if levels = 0 then (addressType, start_address, snd (snd anv0)) else anv0);
          anv2 = (fst anv1, fst (snd anv1), snd (snd anv1) + change)
      in if \<not> (0 \<le> sint (snd (snd anv2))) then Inl (Fatal NegativeANV db)
         else (case Write_anv a anv2 db of
                 (ok, db1) \<Rightarrow>
                   if \<not> ok then Inl (Ret False db1)
                   else Inr (GetReferrer db1 a, db1)))"

text \<open>What follows the loop: the assertion on \<open>levels\<close>, then \<open>return true\<close>.\<close>

definition UpdateANV_exit :: "nat \<Rightarrow> 'k ReferralsViewDB \<Rightarrow> 'k outcome" where
  "UpdateANV_exit levels db = (if levels < MAX_LEVELS then Ret True db else Fatal ReferralCycle db)"

function UpdateANV_loop ::
  "8 word \<Rightarrow> Address \<Rightarrow> CAmount \<Rightarrow> Address option \<Rightarrow> nat \<Rightarrow> 'k ReferralsViewDB \<Rightarrow> 'k outcome" where
  "UpdateANV_loop addressType start_address change cur levels db =
     (case cur of
        None \<Rightarrow> UpdateANV_exit levels db
      | Some a \<Rightarrow>
          if levels < MAX_LEVELS then
            (case UpdateANV_body addressType start_address change a levels db of
               Inl out \<Rightarrow> out
             | Inr (next, db1) \<Rightarrow>
                 UpdateANV_loop addressType start_address change next (levels + 1) db1)
          else UpdateANV_exit levels db)"
  by pat_completeness auto
termination
  by (relation "measure (\<lambda>(t, s, c, cur, levels, db). MAX_LEVELS - levels)") auto

declare UpdateANV_loop.simps [simp del]

definition UpdateANV ::
  "8 word \<Rightarrow> Address \<Rightarrow> CAmount \<Rightarrow> 'k ReferralsViewDB \<Rightarrow> 'k outcome" where
  "UpdateANV addressType start_address change db =
     UpdateANV_loop addressType start_address change (Some start_address) 0 db"

subsection \<open>Scans\<close>

text \<open>
  The forward iterator of the engine is a list of entries. An entry is seen through the
  two reads the scans make: \<open>GetKey\<close> into a pair of a tag and an address, and
  \<open>GetValue\<close> into an \<open>ANVTuple\<close>; either may fail.
\<close>

record CDBIterator_entry =
  GetKey :: "(char \<times> Address) option"
  GetValue :: "ANVTuple option"

fun GetAllANVs_loop :: "CDBIterator_entry list \<Rightarrow> AddressANV list \<Rightarrow> AddressANV list" where
  "GetAllANVs_loop [] anvs = anvs"
| "GetAllANVs_loop (e # iter) anvs =
     (case GetKey e of
        None \<Rightarrow> GetAllANVs_loop iter anvs
      | Some k \<Rightarrow>
          if fst k \<noteq> DB_ANV then GetAllANVs_loop iter anvs
          else
            (case GetValue e of
               None \<Rightarrow> GetAllANVs_loop iter anvs
             | Some (t, origin, amount) \<Rightarrow>
                 GetAllANVs_loop iter
                   (anvs @ [\<lparr>address_type = t, address = origin, anv = amount\<rparr>])))"

definition GetAllANVs :: "CDBIterator_entry list \<Rightarrow> AddressANV list" where
  "GetAllANVs iter = GetAllANVs_loop iter []"

fun GetAllRewardableANVs_loop ::
  "CDBIterator_entry list \<Rightarrow> AddressANV list \<Rightarrow> AddressANV list" where
  "GetAllRewardableANVs_loop [] anvs = anvs"
| "GetAllRewardableANVs_loop (e # iter) anvs =
     (case GetKey e of
        None \<Rightarrow> GetAllRewardableANVs_loop iter anvs
      | Some k \<Rightarrow>
          if fst k \<noteq> DB_ANV then GetAllRewardableANVs_loop iter anvs
          else
            (case GetValue e of
               None \<Rightarrow> GetAllRewardableANVs_loop iter anvs
             | Some (addressType, origin, amount) \<Rightarrow>
                 if addressType \<noteq> 1 \<and> addressType \<noteq> 2 then GetAllRewardableANVs_loop iter anvs
                 else
                   GetAllRewardableANVs_loop iter
                     (anvs @ [\<lparr>address_type = addressType, address = origin, anv = amount\<rparr>])))"

definition GetAllRewardableANVs :: "CDBIterator_entry list \<Rightarrow> AddressANV list" where
  "GetAllRewardableANVs iter = GetAllRewardableANVs_loop iter []"

subsection \<open>The lottery\<close>

definition GetLotteryHeapSize :: "'k ReferralsViewDB \<Rightarrow> nat" where
  "GetLotteryHeapSize db = (case db_lot_size db of None \<Rightarrow> 0 | Some n \<Rightarrow> n)"

text \<open>
  The floating point routines \<open>AddAddressToLottery\<close> calls, over a number type \<open>'f\<close>:
  the logarithm of a 64-bit unsigned integer, subtraction, the test \<open>x <= 0\<close>, the
  conversion of an amount and division.
\<close>

record 'f float_ops =
  flog :: "64 word \<Rightarrow> 'f"
  fsub :: "'f \<Rightarrow> 'f \<Rightarrow> 'f"
  fle_zero :: "'f \<Rightarrow> bool"
  of_CAmount :: "CAmount \<Rightarrow> 'f"
  fdiv :: "'f \<Rightarrow> 'f \<Rightarrow> 'f"

text \<open>\<open>std::log(std::numeric_limits<uint64_t>::max())\<close>\<close>

definition LOG_MAX_UINT64 :: "'f float_ops \<Rightarrow> 'f" where
  "LOG_MAX_UINT64 F = flog F 18446744073709551615"

text \<open>\<open>rand_value.GetUint64(0)\<close>: the low 64 bits.\<close>

definition GetUint64_0 :: "uint256 \<Rightarrow> 64 word" where
  "GetUint64_0 v = ucast v"

definition AddAddressToLottery ::
  "'f float_ops \<Rightarrow> uint256 \<Rightarrow> Address \<Rightarrow> 'k ReferralsViewDB \<Rightarrow> 'k outcome" where
  "AddAddressToLottery F rand_value a db =
     (case GetANV db a of
        None \<Rightarrow> Ret False db
      | Some maybe_anv \<Rightarrow>
          let rand_uint64 = GetUint64_0 rand_value;
              rand = fsub F (flog F rand_uint64) (LOG_MAX_UINT64 F)
          in if \<not> fle_zero F rand then Fatal PositiveLogRand db
             else
               let anv_f = of_CAmount F (anv maybe_anv);
                   weighted_key = fdiv F rand anv_f;
                   heap_size = GetLotteryHeapSize db
               in Ret True db)"

text \<open>
  The loop of \<open>InsertLotteryAddress\<close>: \<open>Inl\<close> is a \<open>return false\<close> from inside the loop,
  \<open>Inr\<close> the position the loop ends at.
\<close>

definition parent_pos :: "nat \<Rightarrow> nat" where
  "parent_pos pos = (if pos mod 2 = 0 then drop_bit 2 pos else drop_bit 2 (pos - 1))"

function InsertLotteryAddress_loop ::
  "'k::linorder \<Rightarrow> nat \<Rightarrow> 'k ReferralsViewDB \<Rightarrow> 'k ReferralsViewDB + nat \<times> 'k ReferralsViewDB" where
  "InsertLotteryAddress_loop key pos db =
     (if pos \<noteq> 0 then
        (case db_lot_val db (parent_pos pos) of
           None \<Rightarrow> Inl db
         | Some parent_value \<Rightarrow>
             if key > fst parent_value then Inr (pos, db)
             else
               (case Write_lot_val pos parent_value db of
                  (ok, db1) \<Rightarrow>
                    if \<not> ok then Inl db1
                    else InsertLotteryAddress_loop key (parent_pos pos) db1))
      else Inr (pos, db))"
  by pat_completeness auto
termination
  by (relation "measure (\<lambda>(key, pos, db). pos)")
    (auto simp: parent_pos_def drop_bit_eq_div)

declare InsertLotteryAddress_loop.simps [simp del]

definition InsertLotteryAddress ::
  "'k::linorder \<Rightarrow> Address \<Rightarrow> 'k ReferralsViewDB \<Rightarrow> bool \<times> 'k ReferralsViewDB" where
  "InsertLotteryAddress key a db =
     (let pos = GetLotteryHeapSize db in
      if pos \<ge> MAX_RESERVOIR_SIZE then (False, db)
      else
        (case Write_lot_size (pos + 1) db of
           (ok1, db1) \<Rightarrow>
             if \<not> ok1 then (False, db1)
             else
               (case InsertLotteryAddress_loop key pos db1 of
                  Inl db2 \<Rightarrow> (False, db2)
                | Inr (pos', db2) \<Rightarrow>
                    (case Write_lot_val pos' (key, a) db2 of
                       (ok2, db3) \<Rightarrow> if \<not> ok2 then (False, db3) else (True, db3)))))"

subsection \<open>Stores and parameters used as concrete inputs\<close>

definition empty_db :: "'k ReferralsViewDB" where
  "empty_db = \<lparr>db_referrals = Map.empty, db_parent_key = Map.empty, db_children = Map.empty,
     db_anv = Map.empty, db_lot_size = None, db_lot_val = Map.empty, engine = []\<rparr>"

text \<open>
  An instance of the floating point routines over the integers. Its \<open>flog\<close> is monotone,
  which is all the assertion \<open>rand <= 0\<close> asks of the logarithm.
\<close>

definition toy_float_ops :: "int float_ops" where
  "toy_float_ops = \<lparr>flog = (\<lambda>u. int (unat u)), fsub = (\<lambda>x y. x - y), fle_zero = (\<lambda>x. x \<le> 0),
     of_CAmount = sint, fdiv = (\<lambda>x y. x div y)\<rparr>"

text \<open>The address 7 has an ANV record of amount 5; the lottery heap is empty.\<close>

definition lottery_db :: "int ReferralsViewDB" where
  "lottery_db = empty_db\<lparr>db_anv := [7 \<mapsto> (1, 7, 5)]\<rparr>"

text \<open>The address types that \<open>GetAllRewardableANVs\<close> keeps.\<close>

definition rewardable :: "AddressANV \<Rightarrow> bool" where
  "rewardable r = (address_type r = 1 \<or> address_type r = 2)"

subsection \<open>Notions the statements about the referral tree use\<close>

text \<open>
  The inviter's address that \<open>InsertReferral\<close> resolves, in terms of the store it
  starts from: the lookup comes after the referral's own record is written.
  \<open>RemoveReferral\<close> looks the inviter up after the record is erased.
\<close>

definition inviter_after_insert :: "'k ReferralsViewDB \<Rightarrow> Referral \<Rightarrow> Address" where
  "inviter_after_insert db r =
     (case ((db_referrals db)(codeHash r \<mapsto> r)) (previousReferral r) of
        None \<Rightarrow> default_Address | Some p \<Rightarrow> pubKeyId p)"

definition inviter_after_erase :: "'k ReferralsViewDB \<Rightarrow> Referral \<Rightarrow> Address" where
  "inviter_after_erase db r =
     (case ((db_referrals db)(codeHash r := None)) (previousReferral r) of
        None \<Rightarrow> default_Address | Some p \<Rightarrow> pubKeyId p)"

text \<open>No referral, \<open>r\<close> included, names \<open>r\<close> as its inviter.\<close>

definition no_descendants :: "'k ReferralsViewDB \<Rightarrow> Referral \<Rightarrow> bool" where
  "no_descendants db r \<longleftrightarrow>
     previousReferral r \<noteq> codeHash r
     \<and> (\<forall>h q. GetReferral db h = Some q \<longrightarrow> previousReferral q \<noteq> codeHash r)"

definition in_no_children_list :: "'k ReferralsViewDB \<Rightarrow> Address \<Rightarrow> bool" where
  "in_no_children_list db a \<longleftrightarrow> (\<forall>x. a \<notin> set (GetChildren db x))"

text \<open>
  A root, a referral it invited and a second root; the store after the first root is
  inserted; and that store after an insertion of the child whose third write failed,
  which leaves the child's record and parent entry behind and no children entry.
\<close>

definition root_referral :: Referral where
  "root_referral = \<lparr>codeHash = 1, pubKeyId = 10, previousReferral = 0\<rparr>"

definition child_referral :: Referral where
  "child_referral = \<lparr>codeHash = 2, pubKeyId = 20, previousReferral = 1\<rparr>"

definition second_root :: Referral where
  "second_root = \<lparr>codeHash = 3, pubKeyId = 30, previousReferral = 0\<rparr>"

definition root_db :: "int ReferralsViewDB" where
  "root_db = snd (InsertReferral root_referral empty_db)"

definition half_inserted_db :: "int ReferralsViewDB" where
  "half_inserted_db =
     snd (InsertReferral child_referral (root_db\<lparr>engine := [True, True, False]\<rparr>))"

subsection \<open>Notions the statements about the lottery heap use\<close>

text \<open>
  The insertion as the specification words it, to compare with the code: the parent of
  a slot is \<open>(child - 1) / 2\<close>, and the sift stops when the parent's key is not greater
  than the new key.
\<close>

definition spec_parent_pos :: "nat \<Rightarrow> nat" where
  "spec_parent_pos child = (child - 1) div 2"

function spec_InsertLotteryAddress_loop ::
  "'k::linorder \<Rightarrow> nat \<Rightarrow> 'k ReferralsViewDB \<Rightarrow> 'k ReferralsViewDB + nat \<times> 'k ReferralsViewDB" where
  "spec_InsertLotteryAddress_loop key pos db =
     (if pos \<noteq> 0 then
        (case db_lot_val db (spec_parent_pos pos) of
           None \<Rightarrow> Inl db
         | Some parent_value \<Rightarrow>
             if \<not> (fst parent_value > key) then Inr (pos, db)
             else
               (case Write_lot_val pos parent_value db of
                  (ok, db1) \<Rightarrow>
                    if \<not> ok then Inl db1
                    else spec_InsertLotteryAddress_loop key (spec_parent_pos pos) db1))
      else Inr (pos, db))"
  by pat_completeness auto
termination
  by (relation "measure (\<lambda>(key, pos, db). pos)") (auto simp: spec_parent_pos_def)

declare spec_InsertLotteryAddress_loop.simps [simp del]

definition spec_InsertLotteryAddress ::
  "'k::linorder \<Rightarrow> Address \<Rightarrow> 'k ReferralsViewDB \<Rightarrow> bool \<times> 'k ReferralsViewDB" where
  "spec_InsertLotteryAddress key a db =
     (let pos = GetLotteryHeapSize db in
      if pos \<ge> MAX_RESERVOIR_SIZE then (False, db)
      else
        (case Write_lot_size (pos + 1) db of
           (ok1, db1) \<Rightarrow>
             if \<not> ok1 then (False, db1)
             else
               (case spec_InsertLotteryAddress_loop key pos db1 of
                  Inl db2 \<Rightarrow> (False, db2)
                | Inr (pos', db2) \<Rightarrow>
                    (case Write_lot_val pos' (key, a) db2 of
                       (ok2, db3) \<Rightarrow> if \<not> ok2 then (False, db3) else (True, db3)))))"

text \<open>A sequence of insertions, each of which has to succeed for the next to run.\<close>

fun InsertLotteryAddresses ::
  "('k::linorder \<times> Address) list \<Rightarrow> 'k ReferralsViewDB \<Rightarrow> bool \<times> 'k ReferralsViewDB" where
  "InsertLotteryAddresses [] db = (True, db)"
| "InsertLotteryAddresses ((key, a) # rest) db =
     (case InsertLotteryAddress key a db of
        (ok, db1) \<Rightarrow> if \<not> ok then (False, db1) else InsertLotteryAddresses rest db1)"

text \<open>
  What the loop of \<open>InsertLotteryAddress\<close> makes of the slots \<open>vals\<close> when it starts
  at \<open>pos\<close> and ends at \<open>q\<close>: \<open>q\<close> is reached from \<open>pos\<close> by \<open>j\<close> steps to the parent
  position the code computes; each slot passed on the way receives the entry of its
  parent, whose key the new key does not exceed; the loop ends at the root or below a
  parent whose key the new key exceeds; every other slot is as it was.
\<close>

definition sifted_up ::
  "'k::linorder \<Rightarrow> nat \<Rightarrow> (nat \<rightharpoonup> 'k \<times> Address) \<Rightarrow> nat \<Rightarrow> (nat \<rightharpoonup> 'k \<times> Address) \<Rightarrow> bool" where
  "sifted_up key pos vals q vals' \<longleftrightarrow>
     (\<exists>j. q = (parent_pos ^^ j) pos
        \<and> (\<forall>i<j. (parent_pos ^^ i) pos \<noteq> 0
              \<and> (\<exists>pv. vals ((parent_pos ^^ Suc i) pos) = Some pv \<and> \<not> key > fst pv
                    \<and> vals' ((parent_pos ^^ i) pos) = Some pv))
        \<and> (q = 0 \<or> (\<exists>pv. vals (parent_pos q) = Some pv \<and> key > fst pv))
        \<and> (\<forall>x. (\<forall>i<j. x \<noteq> (parent_pos ^^ i) pos) \<longrightarrow> vals' x = vals x))"

text \<open>
  The order the code's own parent positions give: below the size counter every slot is
  there, and its key is not less than the key at its parent position.
\<close>

definition ordered_along_parent_pos :: "'k::linorder ReferralsViewDB \<Rightarrow> bool" where
  "ordered_along_parent_pos db \<longleftrightarrow>
     (\<forall>p < GetLotteryHeapSize db.
        \<exists>pv cv. db_lot_val db (parent_pos p) = Some pv \<and> db_lot_val db p = Some cv
          \<and> fst pv \<le> fst cv)"

text \<open>
  The heap after the key 1 is inserted into the empty store, and after 1, 5, 7 and 3 are.
\<close>

definition one_db :: "int ReferralsViewDB" where
  "one_db = snd (InsertLotteryAddress 1 10 empty_db)"

definition four_db :: "int ReferralsViewDB" where
  "four_db = snd (InsertLotteryAddresses [(1, 10), (5, 20), (7, 30), (3, 40)] empty_db)"

subsection \<open>Notions the statements about the aggregate values use\<close>

text \<open>
  \<open>anc\<close> lists the ancestors of \<open>a\<close>, nearest first, up to an address that has no
  referrer. Such a list exists exactly when the walk of \<open>GetReferrer\<close> from \<open>a\<close> ends,
  that is when the chain has no cycle.
\<close>

fun ancestor_chain :: "'k ReferralsViewDB \<Rightarrow> Address \<Rightarrow> Address list \<Rightarrow> bool" where
  "ancestor_chain db a [] = (GetReferrer db a = None)"
| "ancestor_chain db a (x # xs) = (GetReferrer db a = Some x \<and> ancestor_chain db x xs)"

text \<open>
  The record of an address as \<open>UpdateANV\<close> takes it: the default record, of amount 0,
  when there is none.
\<close>

definition ANV_or_zero :: "'k ReferralsViewDB \<Rightarrow> Address \<Rightarrow> AddressANV" where
  "ANV_or_zero db x =
     (case GetANV db x of
        None \<Rightarrow> \<lparr>address_type = 0, address = default_Address, anv = 0\<rparr>
      | Some r \<Rightarrow> r)"

text \<open>The store an outcome leaves behind.\<close>

fun store_of :: "'k outcome \<Rightarrow> 'k ReferralsViewDB" where
  "store_of (Fatal f db) = db"
| "store_of (Ret ok db) = db"

text \<open>The root's store after the child is inserted: 20 is invited by 10, 10 by the default address.\<close>

definition tree_db :: "int ReferralsViewDB" where
  "tree_db = snd (InsertReferral child_referral root_db)"

text \<open>A stored tuple, or the default, with \<open>v\<close> added to its amount; and its amount.\<close>

definition credited :: "CAmount \<Rightarrow> ANVTuple option \<Rightarrow> ANVTuple" where
  "credited v t =
     (case t of None \<Rightarrow> (0, default_Address, v) | Some (ty, origin, amount) \<Rightarrow> (ty, origin, amount + v))"

definition stored_amount :: "ANVTuple option \<Rightarrow> CAmount" where
  "stored_amount t = (case t of None \<Rightarrow> 0 | Some (ty, origin, amount) \<Rightarrow> amount)"

subsection \<open>Notions the statement about sequences of updates uses\<close>

text \<open>
  Calls of \<open>UpdateANV\<close> made one after the other, whatever each returns; a failed
  assertion ends the process and with it the sequence.
\<close>

type_synonym ANVCall = "8 word \<times> Address \<times> CAmount"

fun UpdateANVs :: "ANVCall list \<Rightarrow> 'k ReferralsViewDB \<Rightarrow> 'k outcome" where
  "UpdateANVs [] db = Ret True db"
| "UpdateANVs ((ty, a, v) # calls) db =
     (case UpdateANV ty a v db of
        Fatal f db1 \<Rightarrow> Fatal f db1
      | Ret ok db1 \<Rightarrow> UpdateANVs calls db1)"

text \<open>
  The addresses the loop of \<open>UpdateANV\<close> goes through from \<open>a\<close>, in order, under the
  loop's own guard; an address on a cycle comes as often as the loop passes it.
\<close>

function touched_from :: "'k ReferralsViewDB \<Rightarrow> Address option \<Rightarrow> nat \<Rightarrow> Address list" where
  "touched_from db cur levels =
     (case cur of
        None \<Rightarrow> []
      | Some a \<Rightarrow>
          if levels < MAX_LEVELS then a # touched_from db (GetReferrer db a) (levels + 1)
          else [])"
  by pat_completeness auto
termination
  by (relation "measure (\<lambda>(db, cur, levels). MAX_LEVELS - levels)") auto

declare touched_from.simps [simp del]

definition touched :: "'k ReferralsViewDB \<Rightarrow> Address \<Rightarrow> Address list" where
  "touched db a = touched_from db (Some a) 0"

text \<open>The running total of an address: the amount the store holds for it, as a signed number.\<close>

definition stored_total :: "'k ReferralsViewDB \<Rightarrow> Address \<Rightarrow> int" where
  "stored_total db x = sint (anv (ANV_or_zero db x))"

definition nonneg :: "int \<Rightarrow> bool" where
  "nonneg t \<longleftrightarrow> 0 \<le> t"

definition in_CAmount_range :: "int \<Rightarrow> bool" where
  "in_CAmount_range t \<longleftrightarrow> 0 \<le> t \<and> t \<le> 2 ^ 63 - 1"

text \<open>
  The totals along a walk: each address touched has the change \<open>v\<close> added to its total,
  and every total so reached has to satisfy \<open>P\<close>.
\<close>

fun totals_along :: "(int \<Rightarrow> bool) \<Rightarrow> int \<Rightarrow> (Address \<Rightarrow> int) \<Rightarrow> Address list \<Rightarrow> bool" where
  "totals_along P v totals [] = True"
| "totals_along P v totals (x # walk) =
     (P (totals x + v) \<and> totals_along P v (totals(x := totals x + v)) walk)"

text \<open>
  The caller's precondition on a sequence of calls: when a call starts, the totals along
  the addresses it touches, starting from what the store holds, all satisfy \<open>P\<close>.
\<close>

fun running_totals :: "(int \<Rightarrow> bool) \<Rightarrow> 'k ReferralsViewDB \<Rightarrow> ANVCall list \<Rightarrow> bool" where
  "running_totals P db [] = True"
| "running_totals P db ((ty, a, v) # calls) =
     (totals_along P (sint v) (stored_total db) (touched db a)
      \<and> running_totals P (store_of (UpdateANV ty a v db)) calls)"

text \<open>
  Three calls on \<open>tree_db\<close>: a credit at 20, a credit at 10 and a debit at 20. And two
  calls on an address without referrer: a credit of \<open>2^63 - 1\<close> and a credit of 1.
\<close>

definition ledger_calls :: "ANVCall list" where
  "ledger_calls = [(1, 20, 100), (1, 10, 50), (1, 20, - 100)]"

definition overflow_calls :: "ANVCall list" where
  "overflow_calls = [(1, 7, 9223372036854775807), (1, 7, 1)]"

section \<open>Properties\<close>

subsection \<open>Scans\<close>

lemma GetAllANVs_loop_acc: "GetAllANVs_loop iter anvs = anvs @ GetAllANVs_loop iter []"
proof (induction iter arbitrary: anvs)
  case Nil
  show ?case by simp
next
  case (Cons e iter)
  have step: "GetAllANVs_loop iter (anvs @ [x]) = anvs @ GetAllANVs_loop iter [x]" for x
    using Cons.IH [of "anvs @ [x]"] Cons.IH [of "[x]"] by simp
  show ?case
    using Cons.IH [of anvs] by (simp add: step split: option.split prod.split)
qed

lemma GetAllRewardableANVs_loop_acc:
  "GetAllRewardableANVs_loop iter anvs = anvs @ GetAllRewardableANVs_loop iter []"
proof (induction iter arbitrary: anvs)
  case Nil
  show ?case by simp
next
  case (Cons e iter)
  have step: "GetAllRewardableANVs_loop iter (anvs @ [x])
      = anvs @ GetAllRewardableANVs_loop iter [x]" for x
    using Cons.IH [of "anvs @ [x]"] Cons.IH [of "[x]"] by simp
  show ?case
    using Cons.IH [of anvs] by (simp add: step split: option.split prod.split)
qed

text \<open>
  C8. Over any iterator, \<open>GetAllRewardableANVs\<close> returns the records of \<open>GetAllANVs\<close>
  whose address type is 1 or 2, in the order of the scan, and nothing else.
\<close>

theorem GetAllRewardableANVs_filter:
  "GetAllRewardableANVs iter = filter rewardable (GetAllANVs iter)"
proof (induction iter)
  case Nil
  show ?case by (simp add: GetAllRewardableANVs_def GetAllANVs_def)
next
  case (Cons e iter)
  have a: "GetAllANVs_loop iter [x] = x # GetAllANVs_loop iter []" for x
    using GetAllANVs_loop_acc [of iter "[x]"] by simp
  have r: "GetAllRewardableANVs_loop iter [x] = x # GetAllRewardableANVs_loop iter []" for x
    using GetAllRewardableANVs_loop_acc [of iter "[x]"] by simp
  show ?case
    using Cons.IH
    by (simp add: GetAllRewardableANVs_def GetAllANVs_def a r rewardable_def
        split: option.split prod.split)
qed

subsection \<open>The lottery\<close>

text \<open>
  C9. When the address has an ANV record, \<open>AddAddressToLottery\<close> leaves the store as
  it found it: the size counter, every slot and every other table. It returns true
  whenever the assertion \<open>rand <= 0\<close> holds of the logarithm computed from the seed;
  no other exit is left once the record is found.
\<close>

theorem AddAddressToLottery_frame:
  assumes "GetANV db a \<noteq> None"
  shows "store_of (AddAddressToLottery F rand_value a db) = db
    \<and> (fle_zero F (fsub F (flog F (GetUint64_0 rand_value)) (LOG_MAX_UINT64 F)) \<longrightarrow>
          AddAddressToLottery F rand_value a db = Ret True db)"
  using assms by (auto simp: AddAddressToLottery_def Let_def split: option.split)

theorem AddAddressToLottery_frame_witness:
  "GetANV lottery_db 7 \<noteq> None
   \<and> fle_zero toy_float_ops
        (fsub toy_float_ops (flog toy_float_ops (GetUint64_0 12345)) (LOG_MAX_UINT64 toy_float_ops))
   \<and> store_of (AddAddressToLottery toy_float_ops 12345 7 lottery_db) = lottery_db
   \<and> AddAddressToLottery toy_float_ops 12345 7 lottery_db = Ret True lottery_db"
proof -
  have h1: "GetANV lottery_db 7 \<noteq> None"
    by (simp add: GetANV_def lottery_db_def empty_db_def)
  have h2: "fle_zero toy_float_ops
      (fsub toy_float_ops (flog toy_float_ops (GetUint64_0 12345)) (LOG_MAX_UINT64 toy_float_ops))"
    by (simp add: toy_float_ops_def GetUint64_0_def LOG_MAX_UINT64_def)
  show ?thesis
    using h1 h2 AddAddressToLottery_frame [OF h1, of toy_float_ops 12345] by blast
qed

text \<open>
  C2. The admission step is the comment that ends \<open>AddAddressToLottery\<close>, not code.
  Offered the address 7, which has an ANV record, while the heap is empty, the function
  returns true and the heap is still empty.
\<close>

theorem AddAddressToLottery_no_admission:
  "AddAddressToLottery toy_float_ops 12345 7 lottery_db = Ret True lottery_db
   \<and> GetLotteryHeapSize lottery_db = 0 \<and> db_lot_val lottery_db = Map.empty"
  by (simp add: AddAddressToLottery_def GetANV_def lottery_db_def empty_db_def toy_float_ops_def
      GetUint64_0_def LOG_MAX_UINT64_def GetLotteryHeapSize_def)

subsection \<open>The referral tree\<close>

lemmas referral_eval =
  InsertReferral_def RemoveReferral_def Write_referral_def Write_parent_key_def Write_children_def
  Erase_referral_def Erase_parent_key_def engine_step_def resolve_parent_def GetReferral_def
  GetReferrer_def GetChildren_def WalletIdExists_def Let_def empty_db_def default_Address_def

lemma InsertReferral_True:
  assumes "InsertReferral r db = (True, db')"
  shows "db_referrals db' = (db_referrals db)(codeHash r \<mapsto> r)"
    and "db_parent_key db' = (db_parent_key db)(pubKeyId r \<mapsto> inviter_after_insert db r)"
    and "db_children db' = (db_children db)(inviter_after_insert db r \<mapsto>
           GetChildren db (inviter_after_insert db r) @ [pubKeyId r])"
    and "db_anv db' = db_anv db"
    and "db_lot_size db' = db_lot_size db"
    and "db_lot_val db' = db_lot_val db"
  using assms
  by (auto simp: InsertReferral_def Write_referral_def Write_parent_key_def Write_children_def
      engine_step_def resolve_parent_def GetReferral_def GetChildren_def inviter_after_insert_def
      Let_def split: prod.splits list.splits if_splits)

lemma RemoveReferral_True:
  assumes "RemoveReferral r db = (True, db')"
  shows "db_referrals db' = (db_referrals db)(codeHash r := None)"
    and "db_parent_key db' = (db_parent_key db)(pubKeyId r := None)"
    and "db_children db' = (db_children db)(inviter_after_erase db r \<mapsto>
           filter (\<lambda>c. c \<noteq> pubKeyId r) (GetChildren db (inviter_after_erase db r)))"
    and "db_anv db' = db_anv db"
    and "db_lot_size db' = db_lot_size db"
    and "db_lot_val db' = db_lot_val db"
  using assms
  by (auto simp: RemoveReferral_def Erase_referral_def Erase_parent_key_def Write_children_def
      engine_step_def resolve_parent_def GetReferral_def GetChildren_def inviter_after_erase_def
      Let_def split: prod.splits list.splits if_splits)

text \<open>
  C5. After a successful \<open>InsertReferral r\<close>, \<open>GetReferral\<close> of the code hash of \<open>r\<close>
  returns \<open>r\<close>; and when the previous referral of \<open>r\<close> resolves to a stored referral
  \<open>p\<close>, \<open>GetReferrer\<close> of the address of \<open>r\<close> returns the address of \<open>p\<close>, and the
  address of \<open>r\<close> is among the children of the address of \<open>p\<close>. The previous referral
  is resolved in the store the reads are made in, as the insertion resolves it: after the
  record of \<open>r\<close> is written.
\<close>

theorem InsertReferral_postcondition:
  assumes "InsertReferral r db = (True, db')"
  shows "GetReferral db' (codeHash r) = Some r
    \<and> (\<forall>p. GetReferral db' (previousReferral r) = Some p \<longrightarrow>
          GetReferrer db' (pubKeyId r) = Some (pubKeyId p)
          \<and> pubKeyId r \<in> set (GetChildren db' (pubKeyId p)))"
  using InsertReferral_True(1-3) [OF assms]
  by (auto simp: GetReferral_def GetReferrer_def GetChildren_def inviter_after_insert_def)

theorem InsertReferral_postcondition_witness:
  "InsertReferral child_referral root_db = (True, snd (InsertReferral child_referral root_db))
   \<and> GetReferral (snd (InsertReferral child_referral root_db)) (previousReferral child_referral)
       = Some root_referral
   \<and> GetReferral (snd (InsertReferral child_referral root_db)) (codeHash child_referral)
       = Some child_referral
   \<and> GetReferrer (snd (InsertReferral child_referral root_db)) (pubKeyId child_referral)
       = Some (pubKeyId root_referral)
   \<and> pubKeyId child_referral
       \<in> set (GetChildren (snd (InsertReferral child_referral root_db)) (pubKeyId root_referral))"
proof -
  have h: "InsertReferral child_referral root_db
      = (True, snd (InsertReferral child_referral root_db))"
    by (simp add: InsertReferral_def Write_referral_def Write_parent_key_def Write_children_def
        engine_step_def resolve_parent_def GetReferral_def GetChildren_def Let_def
        root_db_def empty_db_def root_referral_def child_referral_def)
  have p: "GetReferral (snd (InsertReferral child_referral root_db))
      (previousReferral child_referral) = Some root_referral"
    by (simp add: InsertReferral_def Write_referral_def Write_parent_key_def Write_children_def
        engine_step_def resolve_parent_def GetReferral_def GetChildren_def Let_def
        root_db_def empty_db_def root_referral_def child_referral_def)
  show ?thesis
    using h p InsertReferral_postcondition [OF h] by simp
qed

text \<open>
  C10. After a successful \<open>InsertReferral r\<close> where the previous referral of \<open>r\<close>
  matches no stored referral, \<open>GetReferrer\<close> of the address of \<open>r\<close> returns the default
  address, not an empty optional; \<open>WalletIdExists\<close> holds of it; and the address is appended
  to the children list of the default address. Any root inserted afterwards in the same
  way is appended to that same list.
\<close>

theorem InsertReferral_root_sentinel:
  assumes "InsertReferral r db = (True, db')"
    and "GetReferral db' (previousReferral r) = None"
  shows "GetReferrer db' (pubKeyId r) = Some default_Address
    \<and> WalletIdExists db' (pubKeyId r)
    \<and> GetChildren db' default_Address = GetChildren db default_Address @ [pubKeyId r]
    \<and> (\<forall>r2 db2. InsertReferral r2 db' = (True, db2)
           \<and> GetReferral db2 (previousReferral r2) = None \<longrightarrow>
         GetChildren db2 default_Address
           = GetChildren db default_Address @ [pubKeyId r, pubKeyId r2])"
proof -
  have inv: "inviter_after_insert db r = default_Address"
    using assms(2) InsertReferral_True(1) [OF assms(1)]
    by (simp add: inviter_after_insert_def GetReferral_def)
  have one: "GetChildren db' default_Address = GetChildren db default_Address @ [pubKeyId r]"
    using InsertReferral_True(3) [OF assms(1)] by (simp add: inv GetChildren_def)
  have two: "GetChildren db2 default_Address
      = GetChildren db default_Address @ [pubKeyId r, pubKeyId r2]"
    if ins: "InsertReferral r2 db' = (True, db2)"
      and root: "GetReferral db2 (previousReferral r2) = None" for r2 db2
  proof -
    have "inviter_after_insert db' r2 = default_Address"
      using root InsertReferral_True(1) [OF ins]
      by (simp add: inviter_after_insert_def GetReferral_def)
    then have "GetChildren db2 default_Address = GetChildren db' default_Address @ [pubKeyId r2]"
      using InsertReferral_True(3) [OF ins] by (simp add: GetChildren_def)
    then show ?thesis by (simp add: one)
  qed
  show ?thesis
    using InsertReferral_True(2) [OF assms(1)] one two
    by (simp add: inv GetReferrer_def WalletIdExists_def)
qed


theorem InsertReferral_root_sentinel_witness:
  "InsertReferral root_referral (empty_db :: int ReferralsViewDB) = (True, root_db)
   \<and> GetReferral root_db (previousReferral root_referral) = None
   \<and> InsertReferral second_root root_db = (True, snd (InsertReferral second_root root_db))
   \<and> GetReferral (snd (InsertReferral second_root root_db)) (previousReferral second_root) = None
   \<and> GetReferrer root_db (pubKeyId root_referral) = Some default_Address
   \<and> WalletIdExists root_db (pubKeyId root_referral)
   \<and> GetChildren root_db default_Address
       = GetChildren (empty_db :: int ReferralsViewDB) default_Address @ [pubKeyId root_referral]
   \<and> GetChildren (snd (InsertReferral second_root root_db)) default_Address
       = GetChildren (empty_db :: int ReferralsViewDB) default_Address
           @ [pubKeyId root_referral, pubKeyId second_root]"
proof -
  have h1: "InsertReferral root_referral (empty_db :: int ReferralsViewDB) = (True, root_db)"
    by (simp add: root_db_def referral_eval root_referral_def)
  have h2: "GetReferral root_db (previousReferral root_referral) = None"
    by (simp add: root_db_def referral_eval root_referral_def)
  have h3: "InsertReferral second_root root_db = (True, snd (InsertReferral second_root root_db))"
    by (simp add: root_db_def referral_eval root_referral_def second_root_def)
  have h4: "GetReferral (snd (InsertReferral second_root root_db)) (previousReferral second_root)
      = None"
    by (simp add: root_db_def referral_eval root_referral_def second_root_def)
  show ?thesis
    using h1 h2 h3 h4 InsertReferral_root_sentinel [OF h1 h2] by blast
qed

text \<open>
  C6, as amended. Let \<open>r\<close> have no descendants, let its address occur in no children
  list, and let the store hold neither a referral under the code hash of \<open>r\<close> nor a
  parent entry for its address. Then a successful \<open>RemoveReferral r\<close> after a successful
  \<open>InsertReferral r\<close> brings \<open>GetReferral\<close> of the code hash, \<open>GetReferrer\<close> of the
  address and \<open>GetChildren\<close> of the resolved parent address back to what they returned
  before the insertion.
\<close>

theorem RemoveReferral_restores:
  assumes "no_descendants db r"
    and "in_no_children_list db (pubKeyId r)"
    and "GetReferral db (codeHash r) = None"
    and "GetReferrer db (pubKeyId r) = None"
    and "InsertReferral r db = (True, db1)"
    and "RemoveReferral r db1 = (True, db2)"
  shows "GetReferral db2 (codeHash r) = GetReferral db (codeHash r)
    \<and> GetReferrer db2 (pubKeyId r) = GetReferrer db (pubKeyId r)
    \<and> GetChildren db2 (resolve_parent db r) = GetChildren db (resolve_parent db r)"
proof -
  have ne: "previousReferral r \<noteq> codeHash r"
    using assms(1) by (simp add: no_descendants_def)
  have ins: "inviter_after_insert db r = resolve_parent db r"
    using ne by (simp add: inviter_after_insert_def resolve_parent_def GetReferral_def)
  have era: "inviter_after_erase db1 r = resolve_parent db r"
    using ne InsertReferral_True(1) [OF assms(5)]
    by (simp add: inviter_after_erase_def resolve_parent_def GetReferral_def)
  have fresh: "pubKeyId r \<notin> set (GetChildren db (resolve_parent db r))"
    using assms(2) by (simp add: in_no_children_list_def)
  have c1: "GetChildren db1 (resolve_parent db r)
      = GetChildren db (resolve_parent db r) @ [pubKeyId r]"
    using InsertReferral_True(3) [OF assms(5)] by (simp add: ins GetChildren_def)
  have "GetChildren db2 (resolve_parent db r)
      = filter (\<lambda>c. c \<noteq> pubKeyId r) (GetChildren db1 (resolve_parent db r))"
    using RemoveReferral_True(3) [OF assms(6)] by (simp add: era GetChildren_def)
  also have "\<dots> = GetChildren db (resolve_parent db r)"
    using fresh by (auto simp: c1 filter_id_conv)
  finally have children: "GetChildren db2 (resolve_parent db r)
      = GetChildren db (resolve_parent db r)" .
  have referral: "GetReferral db2 (codeHash r) = GetReferral db (codeHash r)"
    using RemoveReferral_True(1) [OF assms(6)] assms(3) by (simp add: GetReferral_def)
  have referrer: "GetReferrer db2 (pubKeyId r) = GetReferrer db (pubKeyId r)"
    using RemoveReferral_True(2) [OF assms(6)] assms(4) by (simp add: GetReferrer_def)
  show ?thesis using children referral referrer by simp
qed

theorem RemoveReferral_restores_witness:
  "no_descendants root_db child_referral
   \<and> in_no_children_list root_db (pubKeyId child_referral)
   \<and> GetReferral root_db (codeHash child_referral) = None
   \<and> GetReferrer root_db (pubKeyId child_referral) = None
   \<and> InsertReferral child_referral root_db = (True, snd (InsertReferral child_referral root_db))
   \<and> RemoveReferral child_referral (snd (InsertReferral child_referral root_db))
       = (True, snd (RemoveReferral child_referral (snd (InsertReferral child_referral root_db))))
   \<and> GetReferral (snd (RemoveReferral child_referral (snd (InsertReferral child_referral root_db))))
        (codeHash child_referral) = GetReferral root_db (codeHash child_referral)
   \<and> GetReferrer (snd (RemoveReferral child_referral (snd (InsertReferral child_referral root_db))))
        (pubKeyId child_referral) = GetReferrer root_db (pubKeyId child_referral)
   \<and> GetChildren (snd (RemoveReferral child_referral (snd (InsertReferral child_referral root_db))))
        (resolve_parent root_db child_referral)
       = GetChildren root_db (resolve_parent root_db child_referral)"
proof -
  have h1: "no_descendants root_db child_referral"
    by (auto simp: no_descendants_def root_db_def referral_eval root_referral_def
        child_referral_def split: if_splits)
  have h2: "in_no_children_list root_db (pubKeyId child_referral)"
    by (auto simp: in_no_children_list_def root_db_def referral_eval root_referral_def
        child_referral_def split: if_splits)
  have h3: "GetReferral root_db (codeHash child_referral) = None"
    by (simp add: root_db_def referral_eval root_referral_def child_referral_def)
  have h4: "GetReferrer root_db (pubKeyId child_referral) = None"
    by (simp add: root_db_def referral_eval root_referral_def child_referral_def)
  have h5: "InsertReferral child_referral root_db
      = (True, snd (InsertReferral child_referral root_db))"
    by (simp add: root_db_def referral_eval root_referral_def child_referral_def)
  have h6: "RemoveReferral child_referral (snd (InsertReferral child_referral root_db))
      = (True, snd (RemoveReferral child_referral (snd (InsertReferral child_referral root_db))))"
    by (simp add: root_db_def referral_eval root_referral_def child_referral_def)
  show ?thesis
    using h1 h2 h3 h4 h5 h6 RemoveReferral_restores [OF h1 h2 h3 h4 h5 h6] by simp
qed

text \<open>
  C6 as stated fails when the record of \<open>r\<close> or its parent entry is already there:
  removal erases both. In \<open>half_inserted_db\<close> the child has no descendants and its address
  is in no children list; inserting and removing it again succeed, and the two reads that
  returned the child's record and its inviter before now return nothing.
\<close>

theorem RemoveReferral_inverse_counterexample:
  "no_descendants half_inserted_db child_referral
   \<and> in_no_children_list half_inserted_db (pubKeyId child_referral)
   \<and> fst (InsertReferral child_referral half_inserted_db)
   \<and> fst (RemoveReferral child_referral (snd (InsertReferral child_referral half_inserted_db)))
   \<and> GetReferral half_inserted_db (codeHash child_referral) = Some child_referral
   \<and> GetReferral
        (snd (RemoveReferral child_referral (snd (InsertReferral child_referral half_inserted_db))))
        (codeHash child_referral) = None
   \<and> GetReferrer half_inserted_db (pubKeyId child_referral) = Some (pubKeyId root_referral)
   \<and> GetReferrer
        (snd (RemoveReferral child_referral (snd (InsertReferral child_referral half_inserted_db))))
        (pubKeyId child_referral) = None"
proof -
  have h1: "no_descendants half_inserted_db child_referral"
    by (auto simp: no_descendants_def half_inserted_db_def root_db_def referral_eval
        root_referral_def child_referral_def split: if_splits)
  have h2: "in_no_children_list half_inserted_db (pubKeyId child_referral)"
    by (auto simp: in_no_children_list_def half_inserted_db_def root_db_def referral_eval
        root_referral_def child_referral_def split: if_splits)
  have rest: "fst (InsertReferral child_referral half_inserted_db)
   \<and> fst (RemoveReferral child_referral (snd (InsertReferral child_referral half_inserted_db)))
   \<and> GetReferral half_inserted_db (codeHash child_referral) = Some child_referral
   \<and> GetReferral
        (snd (RemoveReferral child_referral (snd (InsertReferral child_referral half_inserted_db))))
        (codeHash child_referral) = None
   \<and> GetReferrer half_inserted_db (pubKeyId child_referral) = Some (pubKeyId root_referral)
   \<and> GetReferrer
        (snd (RemoveReferral child_referral (snd (InsertReferral child_referral half_inserted_db))))
        (pubKeyId child_referral) = None"
    by (simp add: half_inserted_db_def root_db_def referral_eval root_referral_def
        child_referral_def)
  show ?thesis using h1 h2 rest by simp
qed

subsection \<open>The lottery heap\<close>

lemmas lottery_eval =
  InsertLotteryAddress_def InsertLotteryAddress_loop.simps spec_InsertLotteryAddress_def
  spec_InsertLotteryAddress_loop.simps Write_lot_size_def Write_lot_val_def engine_step_def
  GetLotteryHeapSize_def MAX_RESERVOIR_SIZE_def parent_pos_def spec_parent_pos_def
  drop_bit_eq_div empty_db_def Let_def

lemma parent_pos_div_4: "parent_pos pos = pos div 4"
proof -
  have "(pos - 1) div 4 = pos div 4" if "pos mod 2 \<noteq> 0"
    using that by presburger
  then show ?thesis by (simp add: parent_pos_def drop_bit_eq_div)
qed

lemma parent_pos_le: "parent_pos pos \<le> pos"
  by (simp add: parent_pos_div_4)

lemma parent_pos_less: "pos \<noteq> 0 \<Longrightarrow> parent_pos pos < pos"
  by (simp add: parent_pos_div_4)

lemma parent_pos_funpow_le: "(parent_pos ^^ i) pos \<le> pos"
proof (induction i)
  case 0
  show ?case by simp
next
  case (Suc i)
  have "(parent_pos ^^ Suc i) pos = parent_pos ((parent_pos ^^ i) pos)" by simp
  also have "\<dots> \<le> (parent_pos ^^ i) pos" by (rule parent_pos_le)
  finally show ?case using Suc.IH by simp
qed

lemma Write_lot_val_True:
  assumes "Write_lot_val k v db = (True, db1)"
  shows "db_lot_val db1 = (db_lot_val db)(k \<mapsto> v)"
    and "db_lot_size db1 = db_lot_size db"
    and "db_referrals db1 = db_referrals db"
    and "db_parent_key db1 = db_parent_key db"
    and "db_children db1 = db_children db"
    and "db_anv db1 = db_anv db"
  using assms by (auto simp: Write_lot_val_def engine_step_def split: list.splits if_splits)

lemma InsertLotteryAddress_loop_frame:
  "InsertLotteryAddress_loop key pos db = Inr (q, db') \<Longrightarrow>
     db_lot_size db' = db_lot_size db \<and> db_referrals db' = db_referrals db
     \<and> db_parent_key db' = db_parent_key db \<and> db_children db' = db_children db
     \<and> db_anv db' = db_anv db"
proof (induction pos arbitrary: db rule: less_induct)
  case (less pos)
  show ?case
  proof (cases "pos = 0")
    case True
    then show ?thesis using less.prems by (simp add: InsertLotteryAddress_loop.simps)
  next
    case False
    then obtain pv where pv: "db_lot_val db (parent_pos pos) = Some pv"
      using less.prems by (auto simp: InsertLotteryAddress_loop.simps [of key pos db] split: option.splits)
    show ?thesis
    proof (cases "key > fst pv")
      case True
      then show ?thesis
        using less.prems False pv by (simp add: InsertLotteryAddress_loop.simps [of key pos db])
    next
      case stay: False
      obtain ok db1 where w: "Write_lot_val pos pv db = (ok, db1)" by (cases "Write_lot_val pos pv db")
      have ok: "ok"
        using less.prems False pv stay w
        by (auto simp: InsertLotteryAddress_loop.simps [of key pos db] split: if_splits)
      have rec: "InsertLotteryAddress_loop key (parent_pos pos) db1 = Inr (q, db')"
        using less.prems False pv stay w ok
        by (simp add: InsertLotteryAddress_loop.simps [of key pos db])
      show ?thesis
        using less.IH [OF parent_pos_less [OF False] rec] Write_lot_val_True [OF w [unfolded ok [THEN eqTrueI]]]
        by simp
    qed
  qed
qed

lemma InsertLotteryAddress_loop_sifted_up:
  "InsertLotteryAddress_loop key pos db = Inr (q, db') \<Longrightarrow>
     sifted_up key pos (db_lot_val db) q (db_lot_val db')"
proof (induction pos arbitrary: db rule: less_induct)
  case (less pos)
  show ?case
  proof (cases "pos = 0")
    case True
    then have "q = 0" "db' = db"
      using less.prems by (simp_all add: InsertLotteryAddress_loop.simps)
    then show ?thesis
      unfolding sifted_up_def using True by (intro exI [of _ 0]) simp
  next
    case False
    then obtain pv where pv: "db_lot_val db (parent_pos pos) = Some pv"
      using less.prems by (auto simp: InsertLotteryAddress_loop.simps [of key pos db] split: option.splits)
    show ?thesis
    proof (cases "key > fst pv")
      case True
      then have "q = pos" "db' = db"
        using less.prems False pv by (simp_all add: InsertLotteryAddress_loop.simps [of key pos db])
      then show ?thesis
        unfolding sifted_up_def using True pv by (intro exI [of _ 0]) simp
    next
      case stay: False
      obtain ok db1 where w: "Write_lot_val pos pv db = (ok, db1)" by (cases "Write_lot_val pos pv db")
      have ok: "ok"
        using less.prems False pv stay w
        by (auto simp: InsertLotteryAddress_loop.simps [of key pos db] split: if_splits)
      have rec: "InsertLotteryAddress_loop key (parent_pos pos) db1 = Inr (q, db')"
        using less.prems False pv stay w ok
        by (simp add: InsertLotteryAddress_loop.simps [of key pos db])
      have vals1: "db_lot_val db1 = (db_lot_val db)(pos \<mapsto> pv)"
        using Write_lot_val_True(1) [OF w [unfolded ok [THEN eqTrueI]]] .
      have below: "(parent_pos ^^ i) (parent_pos pos) < pos" for i
        using parent_pos_funpow_le [of i "parent_pos pos"] parent_pos_less [OF False] by simp
      have shift: "(parent_pos ^^ i) (parent_pos pos) = (parent_pos ^^ Suc i) pos" for i
        by (simp add: funpow_swap1)
      from less.IH [OF parent_pos_less [OF False] rec]
      obtain j where j: "q = (parent_pos ^^ j) (parent_pos pos)"
        and moved: "\<forall>i<j. (parent_pos ^^ i) (parent_pos pos) \<noteq> 0
              \<and> (\<exists>pv. db_lot_val db1 ((parent_pos ^^ Suc i) (parent_pos pos)) = Some pv
                    \<and> \<not> key > fst pv
                    \<and> db_lot_val db' ((parent_pos ^^ i) (parent_pos pos)) = Some pv)"
        and stop: "q = 0 \<or> (\<exists>pv. db_lot_val db1 (parent_pos q) = Some pv \<and> key > fst pv)"
        and frame: "\<forall>x. (\<forall>i<j. x \<noteq> (parent_pos ^^ i) (parent_pos pos))
              \<longrightarrow> db_lot_val db' x = db_lot_val db1 x"
        unfolding sifted_up_def by blast
      have qlt: "q < pos" using j below by simp
      have ppq: "parent_pos q < pos" using qlt parent_pos_le [of q] by simp
      have at_pos: "db_lot_val db' pos = Some pv"
      proof -
        have "\<forall>i<j. pos \<noteq> (parent_pos ^^ i) (parent_pos pos)"
          using below by (metis less_irrefl)
        then have "db_lot_val db' pos = db_lot_val db1 pos" using frame by blast
        then show ?thesis by (simp add: vals1)
      qed
      have c1: "q = (parent_pos ^^ Suc j) pos" using j shift by simp
      have c2: "(parent_pos ^^ i) pos \<noteq> 0
              \<and> (\<exists>pv. db_lot_val db ((parent_pos ^^ Suc i) pos) = Some pv \<and> \<not> key > fst pv
                    \<and> db_lot_val db' ((parent_pos ^^ i) pos) = Some pv)" if "i < Suc j" for i
      proof (cases i)
        case 0
        then show ?thesis using False pv stay at_pos by simp
      next
        case (Suc i')
        then have i': "i' < j" using that by simp
        have ne: "(parent_pos ^^ Suc (Suc i')) pos \<noteq> pos"
          using below [of "Suc i'"] shift [of "Suc i'"] by simp
        from moved i' obtain pv' where
          "(parent_pos ^^ i') (parent_pos pos) \<noteq> 0"
          "db_lot_val db1 ((parent_pos ^^ Suc i') (parent_pos pos)) = Some pv'"
          "\<not> key > fst pv'"
          "db_lot_val db' ((parent_pos ^^ i') (parent_pos pos)) = Some pv'"
          by blast
        then show ?thesis
          using Suc ne unfolding shift vals1 by (auto simp del: funpow.simps)
      qed
      have c3: "q = 0 \<or> (\<exists>pv. db_lot_val db (parent_pos q) = Some pv \<and> key > fst pv)"
        using stop ppq by (auto simp: vals1)
      have c4: "db_lot_val db' x = db_lot_val db x" if x: "\<forall>i<Suc j. x \<noteq> (parent_pos ^^ i) pos" for x
      proof -
        have x0: "x \<noteq> pos" using x by (auto dest: spec [of _ 0])
        have "\<forall>i<j. x \<noteq> (parent_pos ^^ i) (parent_pos pos)"
        proof (intro allI impI)
          fix i assume "i < j"
          then have "Suc i < Suc j" by simp
          then have "x \<noteq> (parent_pos ^^ Suc i) pos" using x by blast
          then show "x \<noteq> (parent_pos ^^ i) (parent_pos pos)" unfolding shift .
        qed
        then have "db_lot_val db' x = db_lot_val db1 x" using frame by blast
        then show ?thesis using x0 by (simp add: vals1)
      qed
      show ?thesis
        unfolding sifted_up_def
        using c1 c2 c3 c4 by (intro exI [of _ "Suc j"]) blast
    qed
  qed
qed

lemma InsertLotteryAddress_True:
  assumes "InsertLotteryAddress key a db = (True, db')"
  shows "GetLotteryHeapSize db < MAX_RESERVOIR_SIZE
    \<and> GetLotteryHeapSize db' = GetLotteryHeapSize db + 1
    \<and> (\<exists>q vals. sifted_up key (GetLotteryHeapSize db) (db_lot_val db) q vals
          \<and> db_lot_val db' = vals(q \<mapsto> (key, a)))"
proof -
  let ?pos = "GetLotteryHeapSize db"
  have cap: "?pos < MAX_RESERVOIR_SIZE"
    using assms by (auto simp: InsertLotteryAddress_def Let_def split: if_splits)
  obtain ok1 db1 where w1: "Write_lot_size (?pos + 1) db = (ok1, db1)"
    by (cases "Write_lot_size (?pos + 1) db")
  have ok1: "ok1"
    using assms cap w1 by (auto simp: InsertLotteryAddress_def Let_def split: if_splits)
  have db1: "db_lot_size db1 = Some (?pos + 1)" "db_lot_val db1 = db_lot_val db"
    using w1 ok1 by (auto simp: Write_lot_size_def engine_step_def split: list.splits if_splits)
  obtain q db2 where loop: "InsertLotteryAddress_loop key ?pos db1 = Inr (q, db2)"
    using assms cap w1 ok1
    by (cases "InsertLotteryAddress_loop key ?pos db1")
      (auto simp: InsertLotteryAddress_def Let_def)
  obtain ok2 db3 where w2: "Write_lot_val q (key, a) db2 = (ok2, db3)"
    by (cases "Write_lot_val q (key, a) db2")
  have fin: "ok2" "db3 = db'"
    using assms cap w1 ok1 loop w2
    by (auto simp: InsertLotteryAddress_def Let_def split: if_splits)
  have w2': "Write_lot_val q (key, a) db2 = (True, db')"
    using w2 fin by simp
  have size: "db_lot_size db' = Some (?pos + 1)"
    using Write_lot_val_True(2) [OF w2'] InsertLotteryAddress_loop_frame [OF loop] db1 by simp
  have "sifted_up key ?pos (db_lot_val db) q (db_lot_val db2)"
    using InsertLotteryAddress_loop_sifted_up [OF loop] by (simp add: db1)
  moreover have "db_lot_val db' = (db_lot_val db2)(q \<mapsto> (key, a))"
    using Write_lot_val_True(1) [OF w2'] .
  ultimately show ?thesis
    using cap size by (auto simp: GetLotteryHeapSize_def)
qed

text \<open>
  C3, as amended. A successful \<open>InsertLotteryAddress\<close> starts below capacity, raises the
  size counter by one and sifts from the next free position toward the root: each parent
  entry whose key the new key does not exceed moves down into the child slot, the sift
  stops exactly at the root or when the new key is greater than the parent's key, the new
  entry is written where it stops, and no other slot changes. Which position counts as
  the parent is left to \<open>parent_pos\<close>.
\<close>

theorem InsertLotteryAddress_sifts_up:
  assumes "InsertLotteryAddress key a db = (True, db')"
  shows "GetLotteryHeapSize db < MAX_RESERVOIR_SIZE
    \<and> GetLotteryHeapSize db' = GetLotteryHeapSize db + 1
    \<and> (\<exists>q vals. sifted_up key (GetLotteryHeapSize db) (db_lot_val db) q vals
          \<and> db_lot_val db' = vals(q \<mapsto> (key, a)))"
  by (rule InsertLotteryAddress_True [OF assms])

theorem InsertLotteryAddress_sifts_up_witness:
  "InsertLotteryAddress 0 50 four_db = (True, snd (InsertLotteryAddress 0 50 four_db))
   \<and> GetLotteryHeapSize four_db < MAX_RESERVOIR_SIZE
   \<and> GetLotteryHeapSize (snd (InsertLotteryAddress 0 50 four_db)) = GetLotteryHeapSize four_db + 1
   \<and> (\<exists>q vals. sifted_up 0 (GetLotteryHeapSize four_db) (db_lot_val four_db) q vals
         \<and> db_lot_val (snd (InsertLotteryAddress 0 50 four_db)) = vals(q \<mapsto> (0, 50)))"
proof -
  have h: "InsertLotteryAddress 0 50 four_db = (True, snd (InsertLotteryAddress 0 50 four_db))"
    by (simp add: four_db_def lottery_eval)
  show ?thesis
    using h InsertLotteryAddress_sifts_up [OF h] by simp
qed

text \<open>
  C3 as stated fails on equal keys. With one entry of key 1 in the heap, a second entry
  of key 1 starts at position 1; its parent position is 0 under either formula, and the
  parent's key is not greater than the new key. The code moves the parent down and
  writes the new entry at the root; stopping there, as the specification has it, leaves the new
  entry at position 1.
\<close>

theorem InsertLotteryAddress_tie_counterexample:
  "GetLotteryHeapSize one_db = 1
   \<and> parent_pos 1 = (1 - 1) div 2
   \<and> db_lot_val one_db ((1 - 1) div 2) = Some (1, 10)
   \<and> \<not> fst (1 :: int, 10 :: Address) > 1
   \<and> fst (InsertLotteryAddress 1 20 one_db)
   \<and> db_lot_val (snd (InsertLotteryAddress 1 20 one_db)) 0 = Some (1, 20)
   \<and> db_lot_val (snd (InsertLotteryAddress 1 20 one_db)) 1 = Some (1, 10)
   \<and> db_lot_val (snd (spec_InsertLotteryAddress 1 20 one_db)) 0 = Some (1, 10)
   \<and> db_lot_val (snd (spec_InsertLotteryAddress 1 20 one_db)) 1 = Some (1, 20)"
  by (simp add: one_db_def lottery_eval)

text \<open>
  C4. Four successful insertions into the empty store, of the keys 1, 5, 7 and 3, leave
  the key 5 at position \<open>(3 - 1) / 2 = 1\<close> and the key 3 at position 3: the entry at
  position 3 was compared with the slot at \<open>(3 - 1) >> 2 = 0\<close> only.
\<close>

theorem binary_heap_invariant_broken:
  "InsertLotteryAddresses [(1, 10), (5, 20), (7, 30), (3, 40)] empty_db = (True, four_db)
   \<and> GetLotteryHeapSize four_db = 4
   \<and> db_lot_val four_db ((3 - 1) div 2) = Some (5, 20)
   \<and> db_lot_val four_db 3 = Some (3, 40)
   \<and> \<not> fst (5 :: int, 20 :: Address) \<le> fst (3 :: int, 40 :: Address)"
  by (simp add: four_db_def lottery_eval)

text \<open>
  Along the parent positions the code computes, insertions keep the heap ordered, and
  the root holds a least key.
\<close>

lemma sifted_up_keeps_order:
  fixes key :: "'k::linorder"
  assumes sift: "sifted_up key n V q vals"
    and old: "\<forall>p < n. \<exists>pv cv. V (parent_pos p) = Some pv \<and> V p = Some cv \<and> fst pv \<le> fst cv"
    and p: "p < n + 1"
  shows "\<exists>pv cv. (vals(q \<mapsto> (key, a))) (parent_pos p) = Some pv
      \<and> (vals(q \<mapsto> (key, a))) p = Some cv \<and> fst pv \<le> fst cv"
proof -
  define x where "x i = (parent_pos ^^ i) n" for i
  have x0: "x 0 = n" and xS: "x (Suc i) = parent_pos (x i)" for i
    by (simp_all add: x_def)
  from sift obtain j where q: "q = x j"
    and moved: "\<And>i. i < j \<Longrightarrow> x i \<noteq> 0
        \<and> (\<exists>pv. V (x (Suc i)) = Some pv \<and> \<not> key > fst pv \<and> vals (x i) = Some pv)"
    and stop: "q = 0 \<or> (\<exists>pv. V (parent_pos q) = Some pv \<and> key > fst pv)"
    and frame: "\<And>y. (\<forall>i<j. y \<noteq> x i) \<Longrightarrow> vals y = V y"
    unfolding sifted_up_def x_def by blast
  have step: "x (Suc i) < x i" if "i < j" for i
    using moved [OF that] parent_pos_less [of "x i"] by (simp add: xS)
  have down: "x k < x i" if "i < k" "k \<le> j" for i k
    using that
  proof (induction k)
    case 0
    then show ?case by simp
  next
    case (Suc k)
    show ?case
    proof (cases "i = k")
      case True
      then show ?thesis using step [of k] Suc.prems by simp
    next
      case False
      then have "x k < x i" using Suc by simp
      moreover have "x (Suc k) < x k" using step [of k] Suc.prems by simp
      ultimately show ?thesis by simp
    qed
  qed
  have above_q: "q < x i" if "i < j" for i
    using down [of i j] that q by simp
  have le_n: "x i \<le> n" if "i \<le> j" for i
  proof (cases "i = 0")
    case True
    then show ?thesis by (simp add: x0)
  next
    case False
    then show ?thesis using down [of 0 i] that by (simp add: x0)
  qed
  have lt_n: "x i < n" if "0 < i" "i \<le> j" for i
    using down [of 0 i] that by (simp add: x0)
  let ?V' = "vals(q \<mapsto> (key, a))"
  have at_q: "?V' q = Some (key, a)" by simp
  have on_path: "?V' (x i) = V (x (Suc i)) \<and> (\<exists>pv. V (x (Suc i)) = Some pv \<and> key \<le> fst pv)"
    if "i < j" for i
    using moved [OF that] above_q [OF that] by (auto simp: not_less)
  have off_path: "?V' y = V y" if "y \<noteq> q" "\<forall>i<j. y \<noteq> x i" for y
    using that frame [of y] by simp
  have q_le: "\<exists>pv. V q = Some pv \<and> key \<le> fst pv" if "0 < j"
  proof -
    from that obtain i where i: "j = Suc i" by (cases j) auto
    then show ?thesis using on_path [of i] q by auto
  qed
  consider (path) i where "i < j" "p = x i" | (final) "p = q" | (other) "p \<noteq> q" "\<forall>i<j. p \<noteq> x i"
    by blast
  then show ?thesis
  proof cases
    case (path i)
    obtain cv where cv: "?V' p = Some cv" "V (x (Suc i)) = Some cv" "key \<le> fst cv"
      using on_path [OF path(1)] path(2) by auto
    have parent: "parent_pos p = x (Suc i)" using path(2) by (simp add: xS)
    show ?thesis
    proof (cases "Suc i = j")
      case True
      then have "?V' (parent_pos p) = Some (key, a)" using parent q by simp
      then show ?thesis using cv by auto
    next
      case False
      then have next_lt: "Suc i < j" using path(1) by simp
      obtain pv where pv: "?V' (x (Suc i)) = Some pv" "V (x (Suc (Suc i))) = Some pv"
        using on_path [OF next_lt] by auto
      have "x (Suc i) < n" using lt_n [of "Suc i"] next_lt by simp
      then obtain pv' cv' where "V (parent_pos (x (Suc i))) = Some pv'" "V (x (Suc i)) = Some cv'"
        "fst pv' \<le> fst cv'"
        using old by blast
      then have "fst pv \<le> fst cv" using pv(2) cv(2) by (simp add: xS)
      then show ?thesis using pv(1) cv(1) parent by auto
    qed
  next
    case final
    show ?thesis
    proof (cases "q = 0")
      case True
      then have "parent_pos p = q" using final by (simp add: parent_pos_div_4)
      then show ?thesis using final by auto
    next
      case False
      then obtain pv where pv: "V (parent_pos q) = Some pv" "key > fst pv"
        using stop by blast
      have lt: "parent_pos q < q" using parent_pos_less [OF False] .
      have "\<forall>i<j. parent_pos q \<noteq> x i"
      proof (intro allI impI)
        fix i assume "i < j"
        then have "q < x i" by (rule above_q)
        then show "parent_pos q \<noteq> x i" using lt by simp
      qed
      then have "?V' (parent_pos q) = V (parent_pos q)"
        using off_path [of "parent_pos q"] lt by simp
      then show ?thesis using pv final by auto
    qed
  next
    case other
    have pn: "p \<noteq> n"
    proof (cases "j = 0")
      case True
      then show ?thesis using other(1) q by (simp add: x0)
    next
      case False
      then show ?thesis using other(2) [rule_format, of 0] by (simp add: x0)
    qed
    then have plt: "p < n" using p by simp
    then obtain pv cv where oldp: "V (parent_pos p) = Some pv" "V p = Some cv" "fst pv \<le> fst cv"
      using old by blast
    have here: "?V' p = Some cv" using off_path [OF other] oldp(2) by simp
    have pple: "parent_pos p < n" using plt parent_pos_le [of p] by simp
    consider (pq) "parent_pos p = q" | (pp) i where "i < j" "parent_pos p = x i"
      | (po) "parent_pos p \<noteq> q" "\<forall>i<j. parent_pos p \<noteq> x i"
      by blast
    then show ?thesis
    proof cases
      case pq
      have "0 < j"
      proof (rule ccontr)
        assume "\<not> 0 < j"
        then have "q = n" using q by (simp add: x0)
        then show False using pq pple by simp
      qed
      then obtain qv where "V q = Some qv" "key \<le> fst qv" using q_le by blast
      then have "key \<le> fst cv" using oldp pq by simp
      then show ?thesis using here pq by auto
    next
      case (pp i)
      have "0 < i"
      proof (rule ccontr)
        assume "\<not> 0 < i"
        then have "parent_pos p = n" using pp(2) by (simp add: x0)
        then show False using pple by simp
      qed
      obtain gv where gv: "?V' (x i) = Some gv" "V (x (Suc i)) = Some gv"
        using on_path [OF pp(1)] by auto
      have "x i < n" using lt_n [OF \<open>0 < i\<close>] pp(1) by simp
      then obtain pv' cv' where "V (parent_pos (x i)) = Some pv'" "V (x i) = Some cv'"
        "fst pv' \<le> fst cv'"
        using old by blast
      then have "fst gv \<le> fst pv" using gv(2) oldp(1) pp(2) by (simp add: xS)
      then have "fst gv \<le> fst cv" using oldp(3) by simp
      then show ?thesis using here gv(1) pp(2) by auto
    next
      case po
      then have "?V' (parent_pos p) = Some pv" using off_path [of "parent_pos p"] oldp(1) by simp
      then show ?thesis using here oldp(3) by auto
    qed
  qed
qed


lemma InsertLotteryAddress_keeps_order:
  assumes "ordered_along_parent_pos db" and "InsertLotteryAddress key a db = (True, db')"
  shows "ordered_along_parent_pos db'"
proof -
  from InsertLotteryAddress_True [OF assms(2)] obtain q vals where
    size: "GetLotteryHeapSize db' = GetLotteryHeapSize db + 1"
    and sift: "sifted_up key (GetLotteryHeapSize db) (db_lot_val db) q vals"
    and vals: "db_lot_val db' = vals(q \<mapsto> (key, a))"
    by blast
  have old: "\<forall>p < GetLotteryHeapSize db. \<exists>pv cv. db_lot_val db (parent_pos p) = Some pv
      \<and> db_lot_val db p = Some cv \<and> fst pv \<le> fst cv"
    using assms(1) by (simp add: ordered_along_parent_pos_def)
  show ?thesis
    unfolding ordered_along_parent_pos_def size vals
    using sifted_up_keeps_order [OF sift old] by blast
qed

lemma InsertLotteryAddresses_keep_order:
  "ordered_along_parent_pos db \<Longrightarrow> InsertLotteryAddresses entries db = (True, db') \<Longrightarrow>
     ordered_along_parent_pos db'"
proof (induction entries arbitrary: db)
  case Nil
  then show ?case by simp
next
  case (Cons e entries)
  obtain key a where e: "e = (key, a)" by (cases e)
  obtain ok db1 where first: "InsertLotteryAddress key a db = (ok, db1)"
    by (cases "InsertLotteryAddress key a db")
  have ok: "ok" and rest: "InsertLotteryAddresses entries db1 = (True, db')"
    using Cons.prems(2) e first by (auto split: if_splits)
  have "ordered_along_parent_pos db1"
    using InsertLotteryAddress_keeps_order [OF Cons.prems(1)] first ok by simp
  then show ?case using Cons.IH rest by blast
qed

lemma ordered_along_parent_pos_empty: "ordered_along_parent_pos empty_db"
  by (simp add: ordered_along_parent_pos_def GetLotteryHeapSize_def empty_db_def)

lemma ordered_root_is_least:
  assumes "ordered_along_parent_pos db" and "p < GetLotteryHeapSize db"
  shows "\<exists>rv cv. db_lot_val db 0 = Some rv \<and> db_lot_val db p = Some cv \<and> fst rv \<le> fst cv"
  using assms(2)
proof (induction p rule: less_induct)
  case (less p)
  obtain pv cv where here: "db_lot_val db (parent_pos p) = Some pv" "db_lot_val db p = Some cv"
    "fst pv \<le> fst cv"
    using assms(1) less.prems by (auto simp: ordered_along_parent_pos_def)
  show ?case
  proof (cases "p = 0")
    case True
    then show ?thesis using here by auto
  next
    case False
    have "parent_pos p < p" using parent_pos_less [OF False] .
    moreover from this have "parent_pos p < GetLotteryHeapSize db" using less.prems by simp
    ultimately obtain rv where "db_lot_val db 0 = Some rv" "fst rv \<le> fst pv"
      using less.IH [of "parent_pos p"] here(1) by auto
    then show ?thesis using here by auto
  qed
qed

subsection \<open>The aggregate values\<close>

lemmas anv_eval =
  UpdateANV_def UpdateANV_loop.simps UpdateANV_body_def UpdateANV_exit_def Write_anv_def
  engine_step_def GetReferrer_def GetANV_def ANV_or_zero_def MAX_LEVELS_def default_ANVTuple_def
  default_Address_def Let_def

lemmas tree_eval = tree_db_def root_db_def root_referral_def child_referral_def referral_eval

lemma ancestor_chain_parent_cong:
  "db_parent_key db1 = db_parent_key db \<Longrightarrow> ancestor_chain db1 a anc = ancestor_chain db a anc"
  by (induction anc arbitrary: a) (simp_all add: GetReferrer_def)

lemma ancestor_chain_unique:
  "ancestor_chain db a xs \<Longrightarrow> ancestor_chain db a ys \<Longrightarrow> xs = ys"
proof (induction xs arbitrary: a ys)
  case Nil
  then show ?case by (cases ys) simp_all
next
  case (Cons x xs)
  then show ?case by (cases ys) auto
qed

lemma ancestor_chain_suffix:
  "ancestor_chain db a anc \<Longrightarrow> x \<in> set anc \<Longrightarrow>
     \<exists>ys. ancestor_chain db x ys \<and> length ys < length anc"
proof (induction anc arbitrary: a)
  case Nil
  then show ?case by simp
next
  case (Cons y ys)
  show ?case
  proof (cases "x = y")
    case True
    then show ?thesis using Cons.prems(1) by auto
  next
    case False
    then have "x \<in> set ys" using Cons.prems(2) by simp
    then obtain zs where "ancestor_chain db x zs" "length zs < length ys"
      using Cons.IH [of y] Cons.prems(1) by auto
    then show ?thesis by auto
  qed
qed

lemma ancestor_chain_distinct: "ancestor_chain db a anc \<Longrightarrow> distinct (a # anc)"
proof (induction anc arbitrary: a)
  case Nil
  show ?case by simp
next
  case (Cons x xs)
  have tail: "distinct (x # xs)" using Cons.IH [of x] Cons.prems by simp
  have "a \<notin> set (x # xs)"
  proof
    assume "a \<in> set (x # xs)"
    then obtain ys where "ancestor_chain db a ys" "length ys < length (x # xs)"
      using ancestor_chain_suffix [OF Cons.prems] by blast
    then show False using ancestor_chain_unique [OF Cons.prems] by auto
  qed
  then show ?case using tail by simp
qed

lemma UpdateANV_body_Inl:
  "UpdateANV_body ty s v a l db = Inl out \<Longrightarrow> out \<noteq> Ret True db'"
  by (auto simp: UpdateANV_body_def Let_def split: if_splits prod.splits)

lemma UpdateANV_body_Inr:
  assumes "UpdateANV_body ty s v a l db = Inr (nxt, db1)"
  shows "nxt = GetReferrer db a"
    and "db_parent_key db1 = db_parent_key db"
    and "db_anv db1 = (db_anv db)(a \<mapsto>
           (if l = 0 then (ty, s, stored_amount (db_anv db a) + v)
            else credited v (db_anv db a)))"
    and "0 \<le> sint (stored_amount (db_anv db a) + v)"
  using assms
  by (auto simp: UpdateANV_body_def Let_def Write_anv_def engine_step_def GetReferrer_def
      credited_def stored_amount_def default_ANVTuple_def
      split: if_splits prod.splits list.splits option.splits)

lemma UpdateANV_loop_Some:
  assumes "UpdateANV_loop ty s v (Some x) l db = Ret True db'"
  obtains db1 where "l < MAX_LEVELS"
    and "UpdateANV_body ty s v x l db = Inr (GetReferrer db x, db1)"
    and "UpdateANV_loop ty s v (GetReferrer db x) (l + 1) db1 = Ret True db'"
proof -
  have lt: "l < MAX_LEVELS"
    using assms by (auto simp: UpdateANV_loop.simps [of ty s v "Some x"] UpdateANV_exit_def split: if_splits)
  show ?thesis
  proof (cases "UpdateANV_body ty s v x l db")
    case (Inl out)
    then show ?thesis
      using assms lt UpdateANV_body_Inl [OF Inl, of db']
      by (simp add: UpdateANV_loop.simps [of ty s v "Some x"])
  next
    case (Inr p)
    obtain nxt db1 where p: "p = (nxt, db1)" by (cases p)
    have nxt: "nxt = GetReferrer db x"
      using UpdateANV_body_Inr(1) [OF Inr [unfolded p]] .
    show ?thesis
      using that [of db1] assms lt Inr p nxt
      by (simp add: UpdateANV_loop.simps [of ty s v "Some x"])
  qed
qed

lemma UpdateANV_loop_None:
  "UpdateANV_loop ty s v None l db = Ret True db' \<Longrightarrow> db' = db"
  by (auto simp: UpdateANV_loop.simps [of ty s v None] UpdateANV_exit_def split: if_splits)

lemma UpdateANV_loop_tail:
  assumes "ancestor_chain db x anc" and "0 < l"
    and "UpdateANV_loop ty s v (Some x) l db = Ret True db'"
  shows "(\<forall>y. db_anv db' y =
            (if y \<in> set (x # anc) then Some (credited v (db_anv db y)) else db_anv db y))
    \<and> (\<forall>y \<in> set (x # anc). 0 \<le> sint (stored_amount (db_anv db y) + v))"
  using assms
proof (induction anc arbitrary: x l db)
  case Nil
  from Nil.prems(3) obtain db1 where
    body: "UpdateANV_body ty s v x l db = Inr (GetReferrer db x, db1)"
    and rest: "UpdateANV_loop ty s v (GetReferrer db x) (l + 1) db1 = Ret True db'"
    by (rule UpdateANV_loop_Some)
  have "db' = db1" using rest Nil.prems(1) UpdateANV_loop_None by simp
  then show ?case
    using UpdateANV_body_Inr(3,4) [OF body] Nil.prems(2) by simp
next
  case (Cons z zs)
  from Cons.prems(3) obtain db1 where
    body: "UpdateANV_body ty s v x l db = Inr (GetReferrer db x, db1)"
    and rest: "UpdateANV_loop ty s v (GetReferrer db x) (l + 1) db1 = Ret True db'"
    by (rule UpdateANV_loop_Some)
  have nxt: "GetReferrer db x = Some z" and chain: "ancestor_chain db z zs"
    using Cons.prems(1) by simp_all
  have chain1: "ancestor_chain db1 z zs"
    using chain ancestor_chain_parent_cong [OF UpdateANV_body_Inr(2) [OF body]] by simp
  have anv1: "db_anv db1 = (db_anv db)(x \<mapsto> credited v (db_anv db x))"
    using UpdateANV_body_Inr(3) [OF body] Cons.prems(2) by simp
  have x: "x \<notin> set (z # zs)"
    using ancestor_chain_distinct [OF Cons.prems(1)] by simp
  have IH: "(\<forall>y. db_anv db' y =
            (if y \<in> set (z # zs) then Some (credited v (db_anv db1 y)) else db_anv db1 y))
    \<and> (\<forall>y \<in> set (z # zs). 0 \<le> sint (stored_amount (db_anv db1 y) + v))"
    using Cons.IH [OF chain1 _ rest [unfolded nxt]] by simp
  have same: "db_anv db1 y = db_anv db y" if "y \<noteq> x" for y
    using that by (simp add: anv1)
  have table: "db_anv db' y =
      (if y \<in> set (x # z # zs) then Some (credited v (db_anv db y)) else db_anv db y)" for y
  proof (cases "y = x")
    case True
    then have "db_anv db' y = db_anv db1 x" using IH x by simp
    then show ?thesis using True by (simp add: anv1)
  next
    case False
    then show ?thesis using IH same [OF False] by simp
  qed
  have asserted: "0 \<le> sint (stored_amount (db_anv db y) + v)" if "y \<in> set (x # z # zs)" for y
  proof (cases "y = x")
    case True
    then show ?thesis using UpdateANV_body_Inr(4) [OF body] by simp
  next
    case False
    then have "y \<in> set (z # zs)" using that by simp
    then have "0 \<le> sint (stored_amount (db_anv db1 y) + v)" using IH by blast
    then show ?thesis using same [OF False] by simp
  qed
  show ?case using table asserted by blast
qed


lemma sint_add_nonneg:
  fixes a v :: "64 word"
  assumes "0 \<le> sint a" and "0 \<le> sint (a + v)"
  shows "sint (a + v) = sint a + sint v"
proof -
  let ?s = "sint a + sint v"
  have eq: "sint (a + v) = signed_take_bit 63 ?s"
    by (simp add: sint_word_ariths)
  have la: "sint a < 2 ^ 63" using sint_lt [of a] by simp
  have lv: "sint v < 2 ^ 63" "- (2 ^ 63) \<le> sint v"
    using sint_lt [of v] sint_ge [of v] by simp_all
  show ?thesis
  proof (cases "?s < 2 ^ 63")
    case True
    have "- (2 ^ 63) \<le> ?s" using assms(1) lv by simp
    then have "signed_take_bit 63 ?s = ?s"
      using True by (simp add: signed_take_bit_int_eq_self)
    then show ?thesis using eq by simp
  next
    case False
    then have "2 ^ 63 \<le> ?s" by simp
    then have "signed_take_bit 63 ?s \<le> ?s - 2 ^ Suc 63"
      by (rule signed_take_bit_int_less_eq)
    moreover have "?s < 2 ^ 64" using la lv by simp
    moreover have "(2::int) ^ Suc 63 = 2 ^ 64" by simp
    ultimately have "signed_take_bit 63 ?s < 0" by linarith
    then show ?thesis using assms(2) eq by linarith
  qed
qed

lemma UpdateANV_table:
  assumes "ancestor_chain db a anc" and "UpdateANV ty a v db = Ret True db'"
  shows "db_anv db' y =
      (if y = a then Some (ty, a, stored_amount (db_anv db a) + v)
       else if y \<in> set anc then Some (credited v (db_anv db y))
       else db_anv db y)"
    and "y \<in> set (a # anc) \<Longrightarrow> 0 \<le> sint (stored_amount (db_anv db y) + v)"
proof -
  from assms(2) obtain db1 where
    body: "UpdateANV_body ty a v a 0 db = Inr (GetReferrer db a, db1)"
    and rest: "UpdateANV_loop ty a v (GetReferrer db a) (0 + 1) db1 = Ret True db'"
    unfolding UpdateANV_def by (rule UpdateANV_loop_Some)
  have anv1: "db_anv db1 = (db_anv db)(a \<mapsto> (ty, a, stored_amount (db_anv db a) + v))"
    using UpdateANV_body_Inr(3) [OF body] by simp
  have first: "0 \<le> sint (stored_amount (db_anv db a) + v)"
    using UpdateANV_body_Inr(4) [OF body] .
  have a: "a \<notin> set anc"
    using ancestor_chain_distinct [OF assms(1)] by simp
  have both: "db_anv db' y =
      (if y = a then Some (ty, a, stored_amount (db_anv db a) + v)
       else if y \<in> set anc then Some (credited v (db_anv db y))
       else db_anv db y)
    \<and> (y \<in> set (a # anc) \<longrightarrow> 0 \<le> sint (stored_amount (db_anv db y) + v))"
  proof (cases anc)
    case Nil
    then have "db' = db1"
      using rest assms(1) UpdateANV_loop_None by simp
    then show ?thesis using Nil first by (simp add: anv1)
  next
    case (Cons z zs)
    have nxt: "GetReferrer db a = Some z" and chain: "ancestor_chain db z zs"
      using assms(1) Cons by simp_all
    have chain1: "ancestor_chain db1 z zs"
      using chain ancestor_chain_parent_cong [OF UpdateANV_body_Inr(2) [OF body]] by simp
    have tail: "(\<forall>y. db_anv db' y =
            (if y \<in> set (z # zs) then Some (credited v (db_anv db1 y)) else db_anv db1 y))
        \<and> (\<forall>y \<in> set (z # zs). 0 \<le> sint (stored_amount (db_anv db1 y) + v))"
      using UpdateANV_loop_tail [OF chain1 _ rest [unfolded nxt]] by simp
    show ?thesis
    proof (cases "y = a")
      case True
      then have "db_anv db' y = db_anv db1 a" using tail a Cons by simp
      then show ?thesis using True first by (simp add: anv1)
    next
      case False
      then have "db_anv db1 y = db_anv db y" by (simp add: anv1)
      then show ?thesis using False tail Cons by auto
    qed
  qed
  show "db_anv db' y =
      (if y = a then Some (ty, a, stored_amount (db_anv db a) + v)
       else if y \<in> set anc then Some (credited v (db_anv db y))
       else db_anv db y)"
    using both by blast
  show "y \<in> set (a # anc) \<Longrightarrow> 0 \<le> sint (stored_amount (db_anv db y) + v)"
    using both by blast
qed

lemma anv_ANV_or_zero: "anv (ANV_or_zero db x) = stored_amount (db_anv db x)"
  by (simp add: ANV_or_zero_def GetANV_def stored_amount_def split: option.split prod.split)

lemma GetANV_credited:
  "db_anv db' x = Some (credited v (db_anv db x)) \<Longrightarrow>
     GetANV db' x = Some ((ANV_or_zero db x)\<lparr>anv := anv (ANV_or_zero db x) + v\<rparr>)"
  by (simp add: ANV_or_zero_def GetANV_def credited_def split: option.split prod.split)

text \<open>
  C1. Let the ancestors of \<open>a\<close> be \<open>anc\<close>, a chain that ends. After a successful
  \<open>UpdateANV ty a v\<close> the record of \<open>a\<close> has the type \<open>ty\<close>, the origin \<open>a\<close> and
  its amount raised by \<open>v\<close>; the record of every ancestor keeps its type and origin and
  has its amount raised by \<open>v\<close>, once; the record of every other address is as it was.
  The amounts are 64-bit: the sum is the one of the machine, and where the amount before
  was not negative it is the sum of the signed values as well.
\<close>

theorem UpdateANV_propagates:
  assumes "ancestor_chain db a anc" and "UpdateANV ty a v db = Ret True db'"
  shows "GetANV db' a = Some \<lparr>address_type = ty, address = a, anv = anv (ANV_or_zero db a) + v\<rparr>
    \<and> (\<forall>x \<in> set anc.
          GetANV db' x = Some ((ANV_or_zero db x)\<lparr>anv := anv (ANV_or_zero db x) + v\<rparr>))
    \<and> (\<forall>x. x \<notin> set (a # anc) \<longrightarrow> GetANV db' x = GetANV db x)
    \<and> (\<forall>x \<in> set (a # anc). 0 \<le> sint (anv (ANV_or_zero db x)) \<longrightarrow>
          sint (anv (ANV_or_zero db' x)) = sint (anv (ANV_or_zero db x)) + sint v)"
proof -
  note table = UpdateANV_table(1) [OF assms] and asserted = UpdateANV_table(2) [OF assms]
  have a: "a \<notin> set anc"
    using ancestor_chain_distinct [OF assms(1)] by simp
  have start: "GetANV db' a
      = Some \<lparr>address_type = ty, address = a, anv = anv (ANV_or_zero db a) + v\<rparr>"
    using table [of a] by (simp add: GetANV_def anv_ANV_or_zero)
  have ancestors: "GetANV db' x = Some ((ANV_or_zero db x)\<lparr>anv := anv (ANV_or_zero db x) + v\<rparr>)"
    if "x \<in> set anc" for x
  proof -
    have "x \<noteq> a" using that a by auto
    then have "db_anv db' x = Some (credited v (db_anv db x))"
      using table [of x] that by simp
    then show ?thesis by (rule GetANV_credited)
  qed
  have others: "GetANV db' x = GetANV db x" if "x \<notin> set (a # anc)" for x
    using table [of x] that by (simp add: GetANV_def)
  have amount: "anv (ANV_or_zero db' x) = anv (ANV_or_zero db x) + v" if "x \<in> set (a # anc)" for x
    using that start ancestors by (auto simp: ANV_or_zero_def)
  have signed: "sint (anv (ANV_or_zero db' x)) = sint (anv (ANV_or_zero db x)) + sint v"
    if "x \<in> set (a # anc)" and "0 \<le> sint (anv (ANV_or_zero db x))" for x
  proof -
    have "0 \<le> sint (anv (ANV_or_zero db x) + v)"
      using asserted [OF that(1)] by (simp add: anv_ANV_or_zero)
    then show ?thesis
      using sint_add_nonneg [OF that(2)] amount [OF that(1)] by simp
  qed
  show ?thesis using start ancestors others signed by blast
qed

theorem UpdateANV_propagates_witness:
  "ancestor_chain tree_db 20 [10, 0]
   \<and> UpdateANV 1 20 100 tree_db = Ret True (store_of (UpdateANV 1 20 100 tree_db))
   \<and> GetANV (store_of (UpdateANV 1 20 100 tree_db)) 20
       = Some \<lparr>address_type = 1, address = 20, anv = 100\<rparr>
   \<and> GetANV (store_of (UpdateANV 1 20 100 tree_db)) 10
       = Some \<lparr>address_type = 0, address = 0, anv = 100\<rparr>
   \<and> GetANV (store_of (UpdateANV 1 20 100 tree_db)) 0
       = Some \<lparr>address_type = 0, address = 0, anv = 100\<rparr>
   \<and> GetANV (store_of (UpdateANV 1 20 100 tree_db)) 30 = GetANV tree_db 30
   \<and> sint (anv (ANV_or_zero (store_of (UpdateANV 1 20 100 tree_db)) 10))
       = sint (anv (ANV_or_zero tree_db 10)) + sint (100 :: CAmount)"
proof -
  have h1: "ancestor_chain tree_db 20 [10, 0]"
    by (simp add: tree_eval)
  have h2: "UpdateANV 1 20 100 tree_db = Ret True (store_of (UpdateANV 1 20 100 tree_db))"
    by (simp add: tree_eval anv_eval)
  have z: "ANV_or_zero tree_db 20 = \<lparr>address_type = 0, address = 0, anv = 0\<rparr>"
    "ANV_or_zero tree_db 10 = \<lparr>address_type = 0, address = 0, anv = 0\<rparr>"
    "ANV_or_zero tree_db 0 = \<lparr>address_type = 0, address = 0, anv = 0\<rparr>"
    by (simp_all add: tree_eval anv_eval)
  show ?thesis
    using h1 h2 UpdateANV_propagates [OF h1 h2] by (simp add: z)
qed

subsection \<open>Sequences of updates\<close>

lemmas totals_eval = touched_def touched_from.simps stored_total_def in_CAmount_range_def nonneg_def

lemma sint_add_in_range:
  fixes a v :: "64 word"
  assumes "in_CAmount_range (sint a + sint v)"
  shows "sint (a + v) = sint a + sint v"
proof -
  have "- (2 ^ 63) \<le> sint a + sint v" "sint a + sint v < 2 ^ 63"
    using assms by (simp_all add: in_CAmount_range_def)
  then have "signed_take_bit 63 (sint a + sint v) = sint a + sint v"
    by (simp add: signed_take_bit_int_eq_self)
  then show ?thesis by (simp add: sint_word_ariths)
qed

lemma UpdateANV_body_cases:
  obtains (negative) "UpdateANV_body ty s v a l db = Inl (Fatal NegativeANV db)"
      and "\<not> 0 \<le> sint (stored_amount (db_anv db a) + v)"
  | (failed) db1 where "UpdateANV_body ty s v a l db = Inl (Ret False db1)"
      and "db_anv db1 = db_anv db" and "db_parent_key db1 = db_parent_key db"
  | (written) db1 where "UpdateANV_body ty s v a l db = Inr (GetReferrer db a, db1)"
      and "stored_amount (db_anv db1 a) = stored_amount (db_anv db a) + v"
      and "\<And>y. y \<noteq> a \<Longrightarrow> db_anv db1 y = db_anv db y"
      and "db_parent_key db1 = db_parent_key db"
proof (cases "0 \<le> sint (stored_amount (db_anv db a) + v)")
  case False
  then have "UpdateANV_body ty s v a l db = Inl (Fatal NegativeANV db)"
    by (auto simp: UpdateANV_body_def Let_def stored_amount_def default_ANVTuple_def
        split: option.splits prod.splits)
  then show ?thesis using False negative by blast
next
  case True
  show ?thesis
  proof (cases "engine db")
    case Nil
    let ?t = "(if l = 0 then (ty, s, stored_amount (db_anv db a) + v)
               else (case db_anv db a of None \<Rightarrow> (0, default_Address, v)
                     | Some (t, origin, amount) \<Rightarrow> (t, origin, amount + v)))"
    let ?db1 = "db\<lparr>db_anv := (db_anv db)(a \<mapsto> ?t)\<rparr>"
    have "UpdateANV_body ty s v a l db = Inr (GetReferrer db a, ?db1)"
      using True Nil
      by (auto simp: UpdateANV_body_def Let_def stored_amount_def default_ANVTuple_def
          Write_anv_def engine_step_def GetReferrer_def split: option.splits prod.splits)
    moreover have "stored_amount (db_anv ?db1 a) = stored_amount (db_anv db a) + v"
      by (auto simp: stored_amount_def split: option.splits prod.splits)
    ultimately show ?thesis using written [of ?db1] by simp
  next
    case (Cons ok rest)
    show ?thesis
    proof (cases ok)
      case False
      have "UpdateANV_body ty s v a l db = Inl (Ret False (db\<lparr>engine := rest\<rparr>))"
        using True Cons False
        by (auto simp: UpdateANV_body_def Let_def stored_amount_def default_ANVTuple_def
            Write_anv_def engine_step_def split: option.splits prod.splits)
      then show ?thesis using failed [of "db\<lparr>engine := rest\<rparr>"] by simp
    next
      case ok: True
      let ?t = "(if l = 0 then (ty, s, stored_amount (db_anv db a) + v)
               else (case db_anv db a of None \<Rightarrow> (0, default_Address, v)
                     | Some (t, origin, amount) \<Rightarrow> (t, origin, amount + v)))"
      let ?db1 = "db\<lparr>engine := rest, db_anv := (db_anv db)(a \<mapsto> ?t)\<rparr>"
      have "UpdateANV_body ty s v a l db = Inr (GetReferrer db a, ?db1)"
        using True Cons ok
        by (auto simp: UpdateANV_body_def Let_def stored_amount_def default_ANVTuple_def
            Write_anv_def engine_step_def GetReferrer_def split: option.splits prod.splits)
      moreover have "stored_amount (db_anv ?db1 a) = stored_amount (db_anv db a) + v"
        by (auto simp: stored_amount_def split: option.splits prod.splits)
      ultimately show ?thesis using written [of ?db1] by simp
    qed
  qed
qed

lemma stored_total_amount: "stored_total db x = sint (stored_amount (db_anv db x))"
  by (simp add: stored_total_def anv_ANV_or_zero)

lemma touched_from_parent_cong:
  assumes "db_parent_key db1 = db_parent_key db"
  shows "touched_from db1 cur l = touched_from db cur l"
proof (induction "MAX_LEVELS - l" arbitrary: l cur)
  case 0
  then have "\<not> l < MAX_LEVELS" by simp
  then show ?case
    by (simp add: touched_from.simps [of _ cur l] split: option.split)
next
  case (Suc n)
  then have "n = MAX_LEVELS - (l + 1)" by simp
  then have "touched_from db1 nxt (l + 1) = touched_from db nxt (l + 1)" for nxt
    using Suc.hyps(1) by blast
  then show ?case
    using assms by (simp add: touched_from.simps [of _ cur l] GetReferrer_def split: option.split)
qed

lemma UpdateANV_loop_safe:
  assumes "totals_along in_CAmount_range (sint v) (stored_total db) (touched_from db cur l)"
  shows "(\<forall>d. UpdateANV_loop ty s v cur l db \<noteq> Fatal NegativeANV d)
    \<and> (\<forall>y. 0 \<le> stored_total db y \<longrightarrow>
          0 \<le> stored_total (store_of (UpdateANV_loop ty s v cur l db)) y)"
  using assms
proof (induction "MAX_LEVELS - l" arbitrary: l cur db)
  case 0
  then have "\<not> l < MAX_LEVELS" by simp
  then show ?case
    by (simp add: UpdateANV_loop.simps [of ty s v cur l] UpdateANV_exit_def split: option.split)
next
  case (Suc n)
  then have lt: "l < MAX_LEVELS" and n: "n = MAX_LEVELS - (l + 1)" by simp_all
  show ?case
  proof (cases cur)
    case None
    then show ?thesis
      by (simp add: UpdateANV_loop.simps [of ty s v None l] UpdateANV_exit_def)
  next
    case (Some x)
    have walk: "touched_from db (Some x) l = x # touched_from db (GetReferrer db x) (l + 1)"
      using lt by (simp add: touched_from.simps [of db "Some x" l])
    have range: "in_CAmount_range (stored_total db x + sint v)"
      and rest: "totals_along in_CAmount_range (sint v)
          ((stored_total db)(x := stored_total db x + sint v))
          (touched_from db (GetReferrer db x) (l + 1))"
      using Suc.prems Some walk by simp_all
    have sum: "sint (stored_amount (db_anv db x) + v) = stored_total db x + sint v"
      using sint_add_in_range range by (simp add: stored_total_amount)
    show ?thesis
    proof (cases rule: UpdateANV_body_cases [of ty s v x l db])
      case negative
      then show ?thesis using sum range by (simp add: in_CAmount_range_def)
    next
      case (failed db1)
      then show ?thesis
        using lt Some
        by (simp add: UpdateANV_loop.simps [of ty s v "Some x" l] stored_total_amount)
    next
      case (written db1)
      have totals1: "stored_total db1 = (stored_total db)(x := stored_total db x + sint v)"
      proof
        fix y
        show "stored_total db1 y = ((stored_total db)(x := stored_total db x + sint v)) y"
          using written(2) written(3) [of y] sum by (cases "y = x") (simp_all add: stored_total_amount)
      qed
      have walk1: "touched_from db1 (GetReferrer db x) (l + 1)
          = touched_from db (GetReferrer db x) (l + 1)"
        using written(4) by (rule touched_from_parent_cong)
      let ?out = "UpdateANV_loop ty s v (GetReferrer db x) (l + 1) db1"
      have rest1: "totals_along in_CAmount_range (sint v) (stored_total db1)
          (touched_from db1 (GetReferrer db x) (l + 1))"
        using rest by (simp only: totals1 walk1)
      have IH: "(\<forall>d. ?out \<noteq> Fatal NegativeANV d)
          \<and> (\<forall>y. 0 \<le> stored_total db1 y \<longrightarrow> 0 \<le> stored_total (store_of ?out) y)"
        by (rule Suc.hyps(1) [OF n rest1])
      have keep: "0 \<le> stored_total db1 y" if "0 \<le> stored_total db y" for y
        using that range by (simp add: totals1 in_CAmount_range_def)
      have unfold: "UpdateANV_loop ty s v cur l db = ?out"
        using lt Some written(1) by (simp add: UpdateANV_loop.simps [of ty s v "Some x" l])
      show ?thesis using IH keep unfold by simp
    qed
  qed
qed

lemma UpdateANVs_safe:
  assumes "running_totals in_CAmount_range db calls"
  shows "(\<forall>d. UpdateANVs calls db \<noteq> Fatal NegativeANV d)
    \<and> (\<forall>x. 0 \<le> stored_total db x \<longrightarrow> 0 \<le> stored_total (store_of (UpdateANVs calls db)) x)"
  using assms
proof (induction calls arbitrary: db)
  case Nil
  show ?case by simp
next
  case (Cons c calls)
  obtain ty a v where c: "c = (ty, a, v)" by (cases c)
  let ?out = "UpdateANV ty a v db"
  have walk: "totals_along in_CAmount_range (sint v) (stored_total db) (touched_from db (Some a) 0)"
    and rest: "running_totals in_CAmount_range (store_of ?out) calls"
    using Cons.prems c by (simp_all add: touched_def)
  have safe: "(\<forall>d. ?out \<noteq> Fatal NegativeANV d)
      \<and> (\<forall>y. 0 \<le> stored_total db y \<longrightarrow> 0 \<le> stored_total (store_of ?out) y)"
    unfolding UpdateANV_def using UpdateANV_loop_safe [OF walk] .
  show ?case
  proof (cases ?out)
    case (Fatal f d)
    then show ?thesis using safe c by auto
  next
    case (Ret ok db1)
    then have db1: "store_of ?out = db1" by simp
    show ?thesis
      using Cons.IH [OF rest [unfolded db1]] safe Ret c db1 by auto
  qed
qed

lemma running_totals_take:
  "running_totals P db calls \<Longrightarrow> running_totals P db (take n calls)"
proof (induction calls arbitrary: db n)
  case Nil
  show ?case by simp
next
  case (Cons c calls)
  obtain ty a v where c: "c = (ty, a, v)" by (cases c)
  show ?case
  proof (cases n)
    case 0
    then show ?thesis by simp
  next
    case (Suc m)
    then show ?thesis using Cons.prems Cons.IH c by simp
  qed
qed

text \<open>
  C7, as amended. Take a sequence of \<open>UpdateANV\<close> calls whose running totals, at every
  address a call touches, stay at least 0 and at most \<open>2^63 - 1\<close>. Then, however far
  the sequence has run, no call has failed the assertion on the amount, and every amount
  that was not negative before the sequence is not negative.
\<close>

theorem UpdateANVs_never_negative:
  assumes "running_totals in_CAmount_range db calls"
  shows "(\<forall>d. UpdateANVs (take n calls) db \<noteq> Fatal NegativeANV d)
    \<and> (\<forall>x. 0 \<le> stored_total db x \<longrightarrow>
          0 \<le> stored_total (store_of (UpdateANVs (take n calls) db)) x)"
  by (rule UpdateANVs_safe [OF running_totals_take [OF assms]])

theorem UpdateANVs_never_negative_witness:
  "running_totals in_CAmount_range tree_db ledger_calls
   \<and> 0 \<le> stored_total tree_db 10
   \<and> UpdateANVs (take 3 ledger_calls) tree_db
       \<noteq> Fatal NegativeANV (store_of (UpdateANVs (take 3 ledger_calls) tree_db))
   \<and> 0 \<le> stored_total (store_of (UpdateANVs (take 3 ledger_calls) tree_db)) 10"
proof -
  have h: "running_totals in_CAmount_range tree_db ledger_calls"
    by (simp add: ledger_calls_def totals_eval tree_eval anv_eval)
  have z: "0 \<le> stored_total tree_db 10"
    by (simp add: stored_total_def tree_eval anv_eval)
  show ?thesis
    using h z UpdateANVs_never_negative [OF h, of 3] by blast
qed

text \<open>
  C7 as stated asks only for totals that are not negative. After a credit of \<open>2^63 - 1\<close>
  a credit of 1 takes the total of the address 7 to \<open>2^63\<close>; the 64-bit sum is
  negative and the assertion fails, the store still holding \<open>2^63 - 1\<close>.
\<close>

theorem UpdateANVs_overflow_counterexample:
  "running_totals nonneg (empty_db :: int ReferralsViewDB) overflow_calls
   \<and> UpdateANVs overflow_calls (empty_db :: int ReferralsViewDB)
       = Fatal NegativeANV (store_of (UpdateANVs overflow_calls (empty_db :: int ReferralsViewDB)))
   \<and> stored_total (store_of (UpdateANVs overflow_calls (empty_db :: int ReferralsViewDB))) 7
       = 9223372036854775807"
  by (simp add: overflow_calls_def totals_eval empty_db_def anv_eval)


end
